theory Spec2Isabelle
  imports Main "HOL-Library.AList" "HOL-Library.Multiset"
begin

section \<open>Python string operations used by getqt.py\<close>

text \<open>
  Strings are byte lists. The file names and the inspector output the script handles are
  ASCII, so \<open>str.lower\<close> is modelled on the ASCII letters and leaves every other byte
  unchanged, and \<open>str.strip\<close> removes the ASCII white space of Python.
\<close>

definition is_upper :: "char \<Rightarrow> bool" where
  "is_upper c = (65 \<le> (of_char c :: nat) \<and> (of_char c :: nat) \<le> 90)"

definition lower_char :: "char \<Rightarrow> char" where
  "lower_char c = (if is_upper c then char_of ((of_char c :: nat) + 32) else c)"

definition lower :: "string \<Rightarrow> string" where
  "lower s = map lower_char s"

fun startswith :: "string \<Rightarrow> string \<Rightarrow> bool" where
  "startswith s [] = True"
| "startswith [] (p # ps) = False"
| "startswith (x # xs) (p # ps) = (x = p \<and> startswith xs ps)"

definition endswith :: "string \<Rightarrow> string \<Rightarrow> bool" where
  "endswith s suf = startswith (rev s) (rev suf)"

text \<open>\<open>contains sub s\<close> is Python's \<open>sub in s\<close> on strings.\<close>

fun contains :: "string \<Rightarrow> string \<Rightarrow> bool" where
  "contains sub [] = (sub = [])"
| "contains sub (x # xs) = (startswith (x # xs) sub \<or> contains sub xs)"

definition is_space :: "char \<Rightarrow> bool" where
  "is_space c = (c = CHR '' '' \<or> (9 \<le> (of_char c :: nat) \<and> (of_char c :: nat) \<le> 13)
     \<or> (28 \<le> (of_char c :: nat) \<and> (of_char c :: nat) \<le> 31))"

definition strip :: "string \<Rightarrow> string" where
  "strip s = rev (dropWhile is_space (rev (dropWhile is_space s)))"

text \<open>\<open>split_char c s\<close> is \<open>s.split(c)\<close> for a one-character separator.\<close>

fun split_char :: "char \<Rightarrow> string \<Rightarrow> string list" where
  "split_char c [] = [[]]"
| "split_char c (x # xs) =
     (if x = c then [] # split_char c xs
      else (case split_char c xs of w # ws \<Rightarrow> (x # w) # ws | [] \<Rightarrow> [[x]]))"

text \<open>\<open>split_crlf s\<close> is \<open>s.split('\r\n')\<close>.\<close>

fun split_crlf :: "string \<Rightarrow> string list" where
  "split_crlf [] = [[]]"
| "split_crlf [x] = [[x]]"
| "split_crlf (x # y # xs) =
     (if x = CHR 0x0D \<and> y = CHR 0x0A then [] # split_crlf xs
      else (case split_crlf (y # xs) of w # ws \<Rightarrow> (x # w) # ws | [] \<Rightarrow> [[x]]))"

section \<open>os.path on Windows\<close>

text \<open>
  The script runs on Windows (it calls dumpbin.exe and 7z.exe), where \<open>os.path\<close> is
  \<open>ntpath\<close>: both \<open>/\<close> and the backslash separate path components. Drive letters and UNC
  prefixes are not modelled; the paths the script builds have a separator after the drive.

  \<open>splitext\<close> splits at the last dot of the last path component, ignoring the dots the
  component starts with; when there is no such dot the extension is empty.
\<close>

definition is_sep :: "char \<Rightarrow> bool" where
  "is_sep c = (c = CHR ''/'' \<or> c = CHR 0x5C)"

definition basename :: "string \<Rightarrow> string" where
  "basename p = rev (takeWhile (\<lambda>c. \<not> is_sep c) (rev p))"

definition dirpart :: "string \<Rightarrow> string" where
  "dirpart p = rev (dropWhile (\<lambda>c. \<not> is_sep c) (rev p))"

definition splitext :: "string \<Rightarrow> string \<times> string" where
  "splitext p =
     (let tail = basename p;
          dots = takeWhile (\<lambda>c. c = CHR ''.'') tail;
          rest = dropWhile (\<lambda>c. c = CHR ''.'') tail
      in if CHR ''.'' \<in> set rest
         then (dirpart p @ dots @ rev (tl (dropWhile (\<lambda>c. c \<noteq> CHR ''.'') (rev rest))),
               CHR ''.'' # rev (takeWhile (\<lambda>c. c \<noteq> CHR ''.'') (rev rest)))
         else (p, []))"

text \<open>\<open>os.path.join(dirpath, filename)\<close> for a plain file name, as \<open>os.walk\<close> yields them.\<close>

definition join :: "string \<Rightarrow> string \<Rightarrow> string" where
  "join dirpath filename =
     (if dirpath = [] \<or> is_sep (last dirpath) then dirpath @ filename
      else dirpath @ [CHR 0x5C] @ filename)"

section \<open>Constants of the script\<close>

definition DEBUG_SUFFIX :: string where
  "DEBUG_SUFFIX = ''d''"

definition IGNORE_FILES :: "string list" where
  "IGNORE_FILES = [''Qt5Designer'', ''Qt5QmlDevTools'']"

definition FIXED_DEPS :: "string list" where
  "FIXED_DEPS = [''qt5core'']"

definition QT_LATEST :: string where
  "QT_LATEST = ''5.4.1''"

definition MERGE_PACKAGES :: "(string \<times> string list) list" where
  "MERGE_PACKAGES =
     [(''qt5core'', [''qtmain'', ''qt5bootstrap'', ''qt5platformsupport'']),
      (''qt5multimedia'', [''qt5multimediawidgets'']),
      (''qt5opengl'', [''qt5openglextensions'']),
      (''qt5xml'', [''qt5xmlpatterns'']),
      (''qt5quick'', [''qt5quickwidgets'', ''qt5quicktest'', ''qt5multimediaquick_p'',
                     ''qt5quickparticles'']),
      (''qt5webkit'', [''qt5webkitwidgets''])]"

section \<open>Logical package names\<close>

text \<open>
  \<open>file_to_package\<close>: the lower-cased base name, without its last character when that
  character is the debug suffix (\<open>base[:-1]\<close>).
\<close>

definition file_to_package :: "string \<Rightarrow> string" where
  "file_to_package filename =
     (let base = lower (fst (splitext filename))
      in if endswith base DEBUG_SUFFIX then butlast base else base)"

section \<open>Components\<close>

text \<open>
  Every raise of the script is a value of \<open>error\<close>: the two exceptions of
  \<open>Component\<close>, a failed or undecodable run of dumpbin (\<open>subprocess.check_output\<close>
  raises), the missing \<open>dependencies\<close> attribute of a plain \<open>Component\<close>, and a
  failed \<open>assert\<close>.
\<close>

datatype error =
  UnknownFileType
| CantFindBinary
| InspectorFailed
| AttributeError
| AssertionError

datatype component_class = Component | DLLComponent

datatype ctype = TYPE_BINARY | TYPE_SYMBOL | TYPE_LIBRARY

datatype build = BUILD_DEBUG | BUILD_RELEASE

record component =
  abspath :: string
  targetpath :: string
  cls :: component_class

text \<open>
  What the script reads from outside: whether a path exists, and what dumpbin prints for a
  path with /HEADERS and with /DEPENDENTS (\<open>None\<close> when the call raises). The answers are
  functions of the path, so the caches \<open>_arch\<close> and \<open>_deps\<close> of the source, which only
  avoid a second call, are left out.
\<close>

record env =
  path_exists :: "string \<Rightarrow> bool"
  dumpbin_headers :: "string \<Rightarrow> string option"
  dumpbin_dependents :: "string \<Rightarrow> string option"

definition extension :: "component \<Rightarrow> string" where
  "extension c = snd (splitext (abspath c))"

definition filename :: "component \<Rightarrow> string" where
  "filename c = basename (abspath c)"

definition normalized_name :: "component \<Rightarrow> string" where
  "normalized_name c = file_to_package (filename c)"

definition component_type :: "component \<Rightarrow> error + ctype" where
  "component_type c =
     (if extension c = ''.dll'' then Inr TYPE_BINARY
      else if extension c = ''.pdb'' then Inr TYPE_SYMBOL
      else if extension c = ''.lib'' then Inr TYPE_LIBRARY
      else Inl UnknownFileType)"

text \<open>
  The file dumpbin is run on: the component itself, or for a symbol file the sibling
  \<open>.dll\<close>, else the sibling \<open>.lib\<close>.
\<close>

definition check_name :: "env \<Rightarrow> component \<Rightarrow> error + string" where
  "check_name ev c =
     (case component_type c of
        Inl e \<Rightarrow> Inl e
      | Inr t \<Rightarrow>
          if t = TYPE_SYMBOL then
            (let test1 = fst (splitext (abspath c)) @ ''.dll'';
                 test2 = fst (splitext (abspath c)) @ ''.lib''
             in if path_exists ev test1 then Inr test1
                else if path_exists ev test2 then Inr test2
                else Inl CantFindBinary)
          else Inr (abspath c))"

text \<open>
  The loop over the lines of the /HEADERS output. The first line that starts with 8664 or
  14C and mentions \<open>machine\<close> gives the architecture: its last word without the first and
  the last character (\<open>line[-1][1:-1]\<close>). When no line qualifies the loop ends and the
  property returns Python's \<open>None\<close>.
\<close>

fun scan_machine :: "string list \<Rightarrow> string option" where
  "scan_machine [] = None"
| "scan_machine (l # ls) =
     (let line = strip l
      in if (startswith line ''8664'' \<or> startswith line ''14C'') \<and> contains ''machine'' line
         then Some (butlast (tl (last (split_char (CHR '' '') line))))
         else scan_machine ls)"

text \<open>Running dumpbin /HEADERS on a path and scanning what it prints.\<close>

definition headers_arch :: "env \<Rightarrow> string \<Rightarrow> error + string option" where
  "headers_arch ev name =
     (case dumpbin_headers ev name of
        None \<Rightarrow> Inl InspectorFailed
      | Some out \<Rightarrow> Inr (scan_machine (split_crlf out)))"

definition component_arch :: "env \<Rightarrow> component \<Rightarrow> error + string option" where
  "component_arch ev c =
     (case check_name ev c of
        Inl e \<Rightarrow> Inl e
      | Inr name \<Rightarrow> headers_arch ev name)"

definition component_build :: "component \<Rightarrow> build" where
  "component_build c =
     (if extension c = ''.pdb'' then BUILD_DEBUG
      else if endswith (fst (splitext (filename c))) DEBUG_SUFFIX then BUILD_DEBUG
      else BUILD_RELEASE)"

text \<open>\<open>_dumpbin_to_deps\<close>: the loop over the lines, with the flag \<open>deps_follow\<close>.\<close>

fun deps_loop :: "bool \<Rightarrow> string list \<Rightarrow> string list" where
  "deps_loop deps_follow [] = []"
| "deps_loop deps_follow (line # rest) =
     (if strip line = [] then deps_loop deps_follow rest
      else
        (let follow1 = (if contains ''Summary'' line then False else deps_follow);
             found = (if follow1 then [lower (strip line)] else []);
             follow2 = (if contains ''dependencies'' line then True else follow1)
         in found @ deps_loop follow2 rest))"

definition dumpbin_to_deps :: "string \<Rightarrow> string list" where
  "dumpbin_to_deps instr = deps_loop False (split_crlf instr)"

text \<open>
  \<open>DLLComponent.dependencies\<close>. Only a \<open>DLLComponent\<close> has the property; reading it on a
  plain \<open>Component\<close> raises AttributeError.
\<close>

definition component_dependencies :: "env \<Rightarrow> component \<Rightarrow> error + string set" where
  "component_dependencies ev c =
     (case cls c of
        Component \<Rightarrow> Inl AttributeError
      | DLLComponent \<Rightarrow>
          (case dumpbin_dependents ev (abspath c) of
             None \<Rightarrow> Inl InspectorFailed
           | Some out \<Rightarrow>
               Inr (set (map file_to_package
                      (filter (\<lambda>dep. startswith dep ''qt'') (dumpbin_to_deps out))))))"

section \<open>Configurations and packages\<close>

record package_config =
  cfg_arch :: "string option"
  cfg_build :: build
  binaries :: "component list"
  symbols :: "component list"
  libraries :: "component list"

definition PackageConfig :: "string option \<Rightarrow> build \<Rightarrow> package_config" where
  "PackageConfig a b =
     \<lparr>cfg_arch = a, cfg_build = b, binaries = [], symbols = [], libraries = []\<rparr>"

definition config_all :: "package_config \<Rightarrow> component list" where
  "config_all cfg = binaries cfg @ symbols cfg @ libraries cfg"

definition add_component :: "package_config \<Rightarrow> component \<Rightarrow> error + package_config" where
  "add_component cfg c =
     (case component_type c of
        Inl e \<Rightarrow> Inl e
      | Inr TYPE_BINARY \<Rightarrow> Inr (cfg\<lparr>binaries := binaries cfg @ [c]\<rparr>)
      | Inr TYPE_LIBRARY \<Rightarrow> Inr (cfg\<lparr>libraries := libraries cfg @ [c]\<rparr>)
      | Inr TYPE_SYMBOL \<Rightarrow> Inr (cfg\<lparr>symbols := symbols cfg @ [c]\<rparr>))"

text \<open>
  A package. \<open>configurations\<close> is a Python set of configuration objects; the list is the
  order in which the set is iterated, and a new configuration goes to its end. A
  configuration object is referred to by its position in the list.
\<close>

record qt_package =
  pkg_id :: string
  pkg_name :: string
  version :: string
  configurations :: "package_config list"
  dependencies :: "string set"

definition QtPackage :: "string \<Rightarrow> string \<Rightarrow> qt_package" where
  "QtPackage ident name =
     \<lparr>pkg_id = lower ident, pkg_name = lower name, version = QT_LATEST,
      configurations = [], dependencies = {}\<rparr>"

fun find_config :: "package_config list \<Rightarrow> string option \<Rightarrow> build \<Rightarrow> nat option" where
  "find_config [] a b = None"
| "find_config (config # rest) a b =
     (if cfg_arch config = a \<and> cfg_build config = b then Some 0
      else map_option Suc (find_config rest a b))"

text \<open>
  \<open>get_config\<close> returns the package, with a new configuration when none matched, and the
  position of the configuration it hands out.
\<close>

definition get_config :: "qt_package \<Rightarrow> string option \<Rightarrow> build \<Rightarrow> qt_package \<times> nat" where
  "get_config p a b =
     (case find_config (configurations p) a b of
        Some i \<Rightarrow> (p, i)
      | None \<Rightarrow>
          (p\<lparr>configurations := configurations p @ [PackageConfig a b]\<rparr>,
           length (configurations p)))"

text \<open>\<open>add_component\<close> on the configuration at position \<open>i\<close> of the package, in place.\<close>

definition add_at :: "qt_package \<Rightarrow> nat \<Rightarrow> component \<Rightarrow> error + qt_package" where
  "add_at p i c =
     (case add_component (configurations p ! i) c of
        Inl e \<Rightarrow> Inl e
      | Inr cfg \<Rightarrow> Inr (p\<lparr>configurations := (configurations p)[i := cfg]\<rparr>))"

definition vs_version :: string where
  "vs_version = ''msvc2013''"

definition from_component :: "env \<Rightarrow> component \<Rightarrow> error + qt_package" where
  "from_component ev c =
     (let ident = normalized_name c @ ''-'' @ vs_version;
          name = normalized_name c;
          package = QtPackage ident name
      in case component_arch ev c of
           Inl e \<Rightarrow> Inl e
         | Inr a \<Rightarrow>
             (case get_config package a (component_build c) of
                (package', i) \<Rightarrow> add_at package' i c))"

section \<open>The registry: ingestion, merge, dependencies\<close>

text \<open>
  The registry is the dict \<open>packages\<close>: an association list in insertion order.
  Assigning to a key is \<open>AList.update\<close>, \<open>del\<close> is \<open>AList.delete\<close>.
\<close>

type_synonym registry = "(string \<times> qt_package) list"

text \<open>
  One round of the loop of \<open>main\<close> over the components. Printing the component first
  evaluates its type, build and architecture, so their errors come first.
\<close>

definition ingest :: "env \<Rightarrow> string \<Rightarrow> registry \<Rightarrow> component \<Rightarrow> error + registry" where
  "ingest ev qt_version packages c =
     (case component_type c of
        Inl e \<Rightarrow> Inl e
      | Inr t \<Rightarrow>
          (case component_arch ev c of
             Inl e \<Rightarrow> Inl e
           | Inr a \<Rightarrow>
               (case map_of packages (normalized_name c) of
                  Some p \<Rightarrow>
                    (case get_config p a (component_build c) of
                       (p', i) \<Rightarrow>
                         (case add_at p' i c of
                            Inl e \<Rightarrow> Inl e
                          | Inr p'' \<Rightarrow> Inr (AList.update (normalized_name c) p'' packages)))
                | None \<Rightarrow>
                    (case from_component ev c of
                       Inl e \<Rightarrow> Inl e
                     | Inr package \<Rightarrow>
                         (let package' = package\<lparr>version :=
                                (if qt_version = ''latest'' then QT_LATEST else qt_version)\<rparr>
                          in Inr (AList.update (pkg_name package') package' packages))))))"

fun ingest_all :: "env \<Rightarrow> string \<Rightarrow> registry \<Rightarrow> component list \<Rightarrow> error + registry" where
  "ingest_all ev qt_version packages [] = Inr packages"
| "ingest_all ev qt_version packages (c # cs) =
     (case ingest ev qt_version packages c of
        Inl e \<Rightarrow> Inl e
      | Inr packages' \<Rightarrow> ingest_all ev qt_version packages' cs)"

subsection \<open>Discovery\<close>

text \<open>
  \<open>find_components\<close> over the result of \<open>os.walk\<close>, a list of directories with their file
  names. The loop over \<open>IGNORE_FILES\<close> sets \<open>skip\<close> at the first entry found in the name.
\<close>

fun skip_file :: "string list \<Rightarrow> string \<Rightarrow> bool" where
  "skip_file [] name = False"
| "skip_file (exclude # rest) name = (if contains exclude name then True else skip_file rest name)"

definition file_components :: "string \<Rightarrow> string \<Rightarrow> string \<Rightarrow> component list" where
  "file_components dirpath target name =
     (if skip_file IGNORE_FILES name then []
      else if endswith name ''.dll''
        then [\<lparr>abspath = join dirpath name, targetpath = target, cls = DLLComponent\<rparr>]
      else if endswith name ''.pdb'' \<or> endswith name ''.lib''
        then [\<lparr>abspath = join dirpath name, targetpath = target, cls = Component\<rparr>]
      else [])"

fun find_components :: "(string \<times> string list) list \<Rightarrow> string \<Rightarrow> component list" where
  "find_components [] target = []"
| "find_components ((dirpath, filenames) # walk) target =
     (if endswith dirpath ''bin'' \<or> endswith dirpath ''lib''
      then concat (map (file_components dirpath target) filenames)
      else [])
     @ find_components walk target"

subsection \<open>Merge\<close>

fun add_all_at :: "qt_package \<Rightarrow> nat \<Rightarrow> component list \<Rightarrow> error + qt_package" where
  "add_all_at p i [] = Inr p"
| "add_all_at p i (c # cs) =
     (case add_at p i c of
        Inl e \<Rightarrow> Inl e
      | Inr p' \<Rightarrow> add_all_at p' i cs)"

text \<open>The loop over the configurations of one member package.\<close>

fun merge_configs :: "qt_package \<Rightarrow> package_config list \<Rightarrow> error + qt_package" where
  "merge_configs target [] = Inr target"
| "merge_configs target (config # rest) =
     (case get_config target (cfg_arch config) (cfg_build config) of
        (target', i) \<Rightarrow>
          (case add_all_at target' i (config_all config) of
             Inl e \<Rightarrow> Inl e
           | Inr target'' \<Rightarrow> merge_configs target'' rest))"

text \<open>
  The loop over the members. \<open>target\<close> is the target object, fetched once before the loop
  and changed in place; a member whose name is the target's name is that same object.
\<close>

fun merge_members ::
  "registry \<Rightarrow> string \<Rightarrow> qt_package \<Rightarrow> string list \<Rightarrow> error + (registry \<times> qt_package)" where
  "merge_members packagelist targetname target [] = Inr (packagelist, target)"
| "merge_members packagelist targetname target (packagename # members) =
     (case map_of packagelist packagename of
        None \<Rightarrow> Inl AssertionError
      | Some p \<Rightarrow>
          (let package = (if packagename = targetname then target else p)
           in case merge_configs target (configurations package) of
                Inl e \<Rightarrow> Inl e
              | Inr target' \<Rightarrow>
                  merge_members (AList.delete packagename packagelist) targetname target' members))"

definition merge_packages :: "registry \<Rightarrow> string \<Rightarrow> string list \<Rightarrow> error + registry" where
  "merge_packages packagelist targetname members =
     (case map_of packagelist targetname of
        None \<Rightarrow> Inl AssertionError
      | Some target \<Rightarrow>
          (case merge_members packagelist targetname target members of
             Inl e \<Rightarrow> Inl e
           | Inr (packagelist', target') \<Rightarrow>
               (case map_of packagelist' targetname of
                  None \<Rightarrow> Inr packagelist'
                | Some old \<Rightarrow> Inr (AList.update targetname target' packagelist'))))"

subsection \<open>Dependencies\<close>

text \<open>
  \<open>compute_dependencies\<close>: the loop over the binaries of one configuration, the loop over
  the configurations of one package, and the loop over the registry. The test that removes
  the package's own name is in the body of the innermost loop, after the update.
\<close>

fun deps_binaries :: "env \<Rightarrow> string \<Rightarrow> string set \<Rightarrow> component list \<Rightarrow> error + string set" where
  "deps_binaries ev packagename deps [] = Inr deps"
| "deps_binaries ev packagename deps (binary # rest) =
     (case component_dependencies ev binary of
        Inl e \<Rightarrow> Inl e
      | Inr d \<Rightarrow>
          (let deps1 = deps \<union> d;
               deps2 = (if packagename \<in> deps1 then deps1 - {packagename} else deps1)
           in deps_binaries ev packagename deps2 rest))"

fun deps_configs :: "env \<Rightarrow> string \<Rightarrow> string set \<Rightarrow> package_config list \<Rightarrow> error + string set" where
  "deps_configs ev packagename deps [] = Inr deps"
| "deps_configs ev packagename deps (config # rest) =
     (case deps_binaries ev packagename deps (binaries config) of
        Inl e \<Rightarrow> Inl e
      | Inr deps' \<Rightarrow> deps_configs ev packagename deps' rest)"

fun compute_dependencies :: "env \<Rightarrow> registry \<Rightarrow> error + registry" where
  "compute_dependencies ev [] = Inr []"
| "compute_dependencies ev ((packagename, package) # rest) =
     (case deps_configs ev packagename (set FIXED_DEPS) (configurations package) of
        Inl e \<Rightarrow> Inl e
      | Inr deps \<Rightarrow>
          (case compute_dependencies ev rest of
             Inl e \<Rightarrow> Inl e
           | Inr rest' \<Rightarrow> Inr ((packagename, package\<lparr>dependencies := deps\<rparr>) # rest')))"

subsection \<open>What a package holds\<close>

text \<open>
  The artifacts of a package as multisets: those in its configurations for one
  (architecture, build) pair, all of them, and those of a whole registry.
\<close>

definition bucket_artifacts :: "qt_package \<Rightarrow> string option \<Rightarrow> build \<Rightarrow> component multiset" where
  "bucket_artifacts p a b =
     sum_list (map (\<lambda>cfg. mset (config_all cfg))
       (filter (\<lambda>cfg. cfg_arch cfg = a \<and> cfg_build cfg = b) (configurations p)))"

definition package_artifacts :: "qt_package \<Rightarrow> component multiset" where
  "package_artifacts p = sum_list (map (\<lambda>cfg. mset (config_all cfg)) (configurations p))"

definition registry_artifacts :: "registry \<Rightarrow> component multiset" where
  "registry_artifacts packages = sum_list (map (\<lambda>(name, p). package_artifacts p) packages)"

text \<open>
  A package is typed when every component in its configurations has one of the three known
  types. Components enter a configuration through \<open>add_component\<close> only, which raises on
  any other, so the packages of a registry built by ingestion are typed.
\<close>

definition typed_package :: "qt_package \<Rightarrow> bool" where
  "typed_package p =
     (\<forall>cfg\<in>set (configurations p). \<forall>c\<in>set (config_all cfg). \<not> isl (component_type c))"

definition typed_registry :: "registry \<Rightarrow> bool" where
  "typed_registry packages = (\<forall>(name, p)\<in>set packages. typed_package p)"

section \<open>Facts about the string operations\<close>

lemma not_upper_lower_char: "\<not> is_upper (lower_char c)"
  unfolding lower_char_def is_upper_def by auto

lemma lower_char_idem: "lower_char (lower_char c) = lower_char c"
  using not_upper_lower_char [of c] by (simp add: lower_char_def)

lemma lower_idem: "lower (lower s) = lower s"
  by (simp add: lower_def lower_char_idem)

lemma lower_no_upper: "c \<in> set (lower s) \<Longrightarrow> \<not> is_upper c"
  by (auto simp: lower_def not_upper_lower_char)

lemma lower_append: "lower (xs @ ys) = lower xs @ lower ys"
  by (simp add: lower_def)

lemma lower_butlast: "lower (butlast s) = butlast (lower s)"
  by (simp add: lower_def map_butlast)

lemma lower_char_d: "lower_char (CHR ''d'') = CHR ''d''"
  by (simp add: lower_char_def is_upper_def)

lemma startswith_iff: "startswith s p \<longleftrightarrow> (\<exists>t. s = p @ t)"
  by (induction s p rule: startswith.induct) auto

lemma endswith_iff: "endswith s suf \<longleftrightarrow> (\<exists>t. s = t @ suf)"
  unfolding endswith_def startswith_iff
  by (metis rev_append rev_rev_ident)

lemma contains_iff: "contains sub s \<longleftrightarrow> (\<exists>ps ss. s = ps @ sub @ ss)"
proof (induction s)
  case Nil
  then show ?case by auto
next
  case (Cons x xs)
  show ?case
  proof
    assume "contains sub (x # xs)"
    then consider "startswith (x # xs) sub" | "contains sub xs" by auto
    then show "\<exists>ps ss. x # xs = ps @ sub @ ss"
    proof cases
      case 1
      then obtain t where "x # xs = sub @ t" by (auto simp: startswith_iff)
      then have "x # xs = [] @ sub @ t" by simp
      then show ?thesis by blast
    next
      case 2
      then obtain ps ss where "xs = ps @ sub @ ss" using Cons.IH by auto
      then have "x # xs = (x # ps) @ sub @ ss" by simp
      then show ?thesis by blast
    qed
  next
    assume "\<exists>ps ss. x # xs = ps @ sub @ ss"
    then obtain ps ss where e: "x # xs = ps @ sub @ ss" by blast
    show "contains sub (x # xs)"
    proof (cases ps)
      case Nil
      with e have "startswith (x # xs) sub" unfolding startswith_iff by auto
      then show ?thesis by simp
    next
      case (Cons a as)
      then have "xs = as @ sub @ ss" using e by simp
      then show ?thesis using Cons.IH by auto
    qed
  qed
qed

lemma endswith_debug: "endswith s DEBUG_SUFFIX \<longleftrightarrow> s \<noteq> [] \<and> last s = CHR ''d''"
proof
  assume "endswith s DEBUG_SUFFIX"
  then obtain t where "s = t @ ''d''" by (auto simp: endswith_iff DEBUG_SUFFIX_def)
  then show "s \<noteq> [] \<and> last s = CHR ''d''" by simp
next
  assume a: "s \<noteq> [] \<and> last s = CHR ''d''"
  then have "s = butlast s @ ''d''" by (metis append_butlast_last_id)
  then show "endswith s DEBUG_SUFFIX" unfolding endswith_iff DEBUG_SUFFIX_def by blast
qed

lemma butlast_neq: "xs \<noteq> [] \<Longrightarrow> butlast xs \<noteq> xs"
  by (cases xs rule: rev_cases) auto

section \<open>Facts about splitext\<close>

text \<open>
  A name made of a base without separators that is not only dots, a dot, and an extension
  without dots and separators splits into that base and that extension.
\<close>

lemma splitext_plain:
  assumes b: "\<forall>c\<in>set b. \<not> is_sep c" and nd: "\<exists>c\<in>set b. c \<noteq> CHR ''.''"
    and e: "\<forall>c\<in>set e. c \<noteq> CHR ''.'' \<and> \<not> is_sep c"
  shows "splitext (b @ CHR ''.'' # e) = (b, CHR ''.'' # e)"
proof -
  let ?p = "b @ CHR ''.'' # e"
  let ?D = "\<lambda>c. c = CHR ''.''"
  have nosep: "\<forall>c\<in>set (rev ?p). \<not> is_sep c"
    using b e by (auto simp: is_sep_def)
  have bn: "basename ?p = ?p"
    unfolding basename_def using nosep by (simp add: takeWhile_eq_all_conv [THEN iffD2])
  have dp: "dirpart ?p = []"
    unfolding dirpart_def using nosep by (simp add: dropWhile_eq_Nil_conv [THEN iffD2])
  obtain x where x: "x \<in> set b" "\<not> ?D x" using nd by blast
  have dots: "takeWhile ?D ?p = takeWhile ?D b"
    using x by (rule takeWhile_append1)
  have rest: "dropWhile ?D ?p = dropWhile ?D b @ CHR ''.'' # e"
    using x by (rule dropWhile_append1)
  have rv: "rev (dropWhile ?D ?p) = rev e @ CHR ''.'' # rev (dropWhile ?D b)"
    by (simp add: rest)
  have tw: "takeWhile (\<lambda>c. c \<noteq> CHR ''.'') (rev (dropWhile ?D ?p)) = rev e"
    unfolding rv using e by (subst takeWhile_append2) auto
  have dw: "dropWhile (\<lambda>c. c \<noteq> CHR ''.'') (rev (dropWhile ?D ?p))
      = CHR ''.'' # rev (dropWhile ?D b)"
    unfolding rv using e by (subst dropWhile_append2) auto
  have mem: "CHR ''.'' \<in> set (dropWhile ?D ?p)" by (simp add: rest)
  show ?thesis
    unfolding splitext_def Let_def bn dp using mem
    by (simp only: tw dw dots if_True) simp
qed

section \<open>Logical names: lower case, and the debug marker\<close>

lemma file_to_package_lower: "c \<in> set (file_to_package f) \<Longrightarrow> \<not> is_upper c"
  by (auto simp: file_to_package_def Let_def lower_no_upper dest: in_set_butlastD
      split: if_splits)

lemma file_to_package_idem_lower: "lower (file_to_package f) = file_to_package f"
  by (simp add: file_to_package_def Let_def lower_butlast lower_idem)

lemma file_to_package_debug:
  assumes "fst (splitext g) = fst (splitext f) @ DEBUG_SUFFIX"
  shows "file_to_package g = lower (fst (splitext f))"
proof -
  have "lower (fst (splitext g)) = lower (fst (splitext f)) @ ''d''"
    using assms by (simp add: lower_append DEBUG_SUFFIX_def lower_def lower_char_d)
  then show ?thesis
    by (simp add: file_to_package_def endswith_debug)
qed

text \<open>
  When the base name of \<open>g\<close> is the base name of \<open>f\<close> followed by the debug marker, the two
  files get the same logical name exactly when the lower-cased base name of \<open>f\<close> does not
  end in the marker itself.
\<close>

lemma file_to_package_counterpart:
  assumes "fst (splitext g) = fst (splitext f) @ DEBUG_SUFFIX"
  shows "file_to_package g = file_to_package f \<longleftrightarrow>
         \<not> endswith (lower (fst (splitext f))) DEBUG_SUFFIX"
proof (cases "endswith (lower (fst (splitext f))) DEBUG_SUFFIX")
  case True
  then have ne: "lower (fst (splitext f)) \<noteq> []" by (simp add: endswith_debug)
  have "file_to_package f = butlast (lower (fst (splitext f)))"
    using True by (simp add: file_to_package_def)
  then have "file_to_package f \<noteq> lower (fst (splitext f))"
    using butlast_neq [OF ne] by simp
  then show ?thesis using True file_to_package_debug [OF assms] by simp
next
  case False
  then have "file_to_package f = lower (fst (splitext f))"
    by (simp add: file_to_package_def)
  then show ?thesis using False file_to_package_debug [OF assms] by simp
qed

text \<open>
  Claim C3, as the code has it. The logical name is a function of the file name alone, so
  it is deterministic, and it holds no upper-case letter. For a base name \<open>b\<close> (no
  separator, not only dots) and an extension \<open>e\<close>, the file \<open>b\<close>d.\<open>e\<close> with the debug marker
  and the file \<open>b\<close>.\<open>e\<close> without it get the same logical name exactly when the lower-cased
  \<open>b\<close> does not itself end in the marker \<open>d\<close>.
\<close>

theorem file_to_package_logical_name:
  assumes "\<forall>c\<in>set b. \<not> is_sep c" and "\<exists>c\<in>set b. c \<noteq> CHR ''.''"
    and "\<forall>c\<in>set e. c \<noteq> CHR ''.'' \<and> \<not> is_sep c"
  shows "(\<forall>c\<in>set (file_to_package f). \<not> is_upper c) \<and>
         (file_to_package (b @ DEBUG_SUFFIX @ CHR ''.'' # e) = file_to_package (b @ CHR ''.'' # e)
            \<longleftrightarrow> \<not> endswith (lower b) DEBUG_SUFFIX)"
proof -
  have s1: "splitext (b @ CHR ''.'' # e) = (b, CHR ''.'' # e)"
    using assms by (rule splitext_plain)
  have "splitext ((b @ DEBUG_SUFFIX) @ CHR ''.'' # e) = (b @ DEBUG_SUFFIX, CHR ''.'' # e)"
    using assms by (intro splitext_plain) (auto simp: DEBUG_SUFFIX_def is_sep_def)
  then have s2: "fst (splitext (b @ DEBUG_SUFFIX @ CHR ''.'' # e)) =
      fst (splitext (b @ CHR ''.'' # e)) @ DEBUG_SUFFIX"
    by (simp add: s1)
  show ?thesis
    using file_to_package_counterpart [OF s2] file_to_package_lower [of _ f] by (simp add: s1)
qed

theorem file_to_package_logical_name_witness:
  "\<not> endswith (lower ''Qt5Gui'') DEBUG_SUFFIX \<and>
   file_to_package ''Qt5Guid.dll'' = file_to_package ''Qt5Gui.dll'' \<and>
   list_all (\<lambda>c. \<not> is_upper c) (file_to_package ''Qt5Guid.dll'')"
proof -
  have h1: "\<forall>c\<in>set ''Qt5Gui''. \<not> is_sep c" by (simp add: is_sep_def)
  have h2: "\<exists>c\<in>set ''Qt5Gui''. c \<noteq> CHR ''.''" by simp
  have h3: "\<forall>c\<in>set ''dll''. c \<noteq> CHR ''.'' \<and> \<not> is_sep c" by (simp add: is_sep_def)
  have h4: "\<not> endswith (lower ''Qt5Gui'') DEBUG_SUFFIX" by code_simp
  show ?thesis
    using file_to_package_logical_name [OF h1 h2 h3, of "''Qt5Guid.dll''"] h4
    by (simp add: DEBUG_SUFFIX_def list_all_iff)
qed

text \<open>
  The claim as stated, for every base name, fails for the base name \<open>qtd\<close>: \<open>qtdd.dll\<close>
  becomes \<open>qtd\<close> and \<open>qtd.dll\<close> becomes \<open>qt\<close>.
\<close>

theorem file_to_package_counterexample:
  "file_to_package (''qtd'' @ DEBUG_SUFFIX @ ''.dll'') \<noteq> file_to_package (''qtd'' @ ''.dll'')"
  by code_simp

section \<open>Discovery: the ignore list and the extensions\<close>

lemma skip_file_iff: "skip_file xs name \<longleftrightarrow> (\<exists>e\<in>set xs. contains e name)"
  by (induction xs) auto

text \<open>
  Claim C10. A file name is excluded by the ignore list exactly when some entry of
  \<open>IGNORE_FILES\<close> occurs in it verbatim, letter case included. An excluded file yields no
  component; a file that is not excluded and ends in \<open>.dll\<close> yields its component, and
  the lower-case variant \<open>qt5designer.dll\<close> of an ignored name is not excluded.
\<close>

theorem ignore_list_case_sensitive:
  "(skip_file IGNORE_FILES name \<longleftrightarrow> (\<exists>e\<in>set IGNORE_FILES. \<exists>ps ss. name = ps @ e @ ss)) \<and>
   (skip_file IGNORE_FILES name \<longrightarrow> file_components dirpath target name = []) \<and>
   (\<not> skip_file IGNORE_FILES name \<and> endswith name ''.dll'' \<longrightarrow>
      file_components dirpath target name =
        [\<lparr>abspath = join dirpath name, targetpath = target, cls = DLLComponent\<rparr>]) \<and>
   \<not> skip_file IGNORE_FILES ''qt5designer.dll''"
proof -
  have "\<not> skip_file IGNORE_FILES ''qt5designer.dll''"
    by (simp add: IGNORE_FILES_def)
  then show ?thesis
    by (simp add: skip_file_iff contains_iff file_components_def)
qed

theorem ignore_list_case_sensitive_witness:
  "skip_file IGNORE_FILES ''Qt5Designer.dll'' \<and>
   find_components [(''C:/Qt/bin'', [''Qt5Designer.dll'', ''qt5designer.dll''])] ''C:/tmp'' =
     [\<lparr>abspath = join ''C:/Qt/bin'' ''qt5designer.dll'', targetpath = ''C:/tmp'',
       cls = DLLComponent\<rparr>]"
proof -
  have a: "\<exists>e\<in>set IGNORE_FILES. \<exists>ps ss. ''Qt5Designer.dll'' = ps @ e @ ss"
  proof -
    have "''Qt5Designer'' \<in> set IGNORE_FILES" by (simp add: IGNORE_FILES_def)
    moreover have "''Qt5Designer.dll'' = [] @ ''Qt5Designer'' @ ''.dll''" by simp
    ultimately show ?thesis by blast
  qed
  have s: "skip_file IGNORE_FILES ''Qt5Designer.dll''"
    using ignore_list_case_sensitive [of "''Qt5Designer.dll''"] a by blast
  have e: "endswith ''qt5designer.dll'' ''.dll''" by (simp add: endswith_def)
  have n: "\<not> skip_file IGNORE_FILES ''qt5designer.dll''"
    using ignore_list_case_sensitive by blast
  have f1: "file_components ''C:/Qt/bin'' ''C:/tmp'' ''Qt5Designer.dll'' = []"
    using ignore_list_case_sensitive [of "''Qt5Designer.dll''" "''C:/Qt/bin''" "''C:/tmp''"] s by blast
  have f2: "file_components ''C:/Qt/bin'' ''C:/tmp'' ''qt5designer.dll'' =
      [\<lparr>abspath = join ''C:/Qt/bin'' ''qt5designer.dll'', targetpath = ''C:/tmp'', cls = DLLComponent\<rparr>]"
    using ignore_list_case_sensitive [of "''qt5designer.dll''" "''C:/Qt/bin''" "''C:/tmp''"] n e by blast
  show ?thesis using s f1 f2 by (simp add: endswith_def)
qed

lemma endswith_exe:
  "endswith name ''.exe'' \<Longrightarrow>
     \<not> endswith name ''.dll'' \<and> \<not> endswith name ''.pdb'' \<and> \<not> endswith name ''.lib''"
  by (auto simp: endswith_iff)

lemma concat_file_components_filter:
  "concat (map (file_components d t)
      (filter (\<lambda>n. endswith n ''.dll'' \<or> endswith n ''.pdb'' \<or> endswith n ''.lib'') fs))
   = concat (map (file_components d t) fs)"
  by (induction fs) (auto simp: file_components_def)

lemma find_components_filter:
  "find_components
      (map (\<lambda>(d, fs). (d, filter (\<lambda>n. endswith n ''.dll'' \<or> endswith n ''.pdb'' \<or> endswith n ''.lib'') fs)) walk) target
   = find_components walk target"
  by (induction walk target rule: find_components.induct) (simp_all add: concat_file_components_filter)

text \<open>
  Claim C7, as the code has it. \<open>Component.type\<close> raises for a component whose extension
  is none of \<open>.dll\<close>, \<open>.pdb\<close>, \<open>.lib\<close>. Discovery never builds such a component:
  a file whose name ends in none of the three, one ending in \<open>.exe\<close> for instance, yields
  no component and no error, and dropping these files from the walk changes nothing.
\<close>

theorem unrecognised_extension:
  "(extension c \<noteq> ''.dll'' \<and> extension c \<noteq> ''.pdb'' \<and> extension c \<noteq> ''.lib''
      \<longrightarrow> component_type c = Inl UnknownFileType) \<and>
   (\<not> endswith name ''.dll'' \<and> \<not> endswith name ''.pdb'' \<and> \<not> endswith name ''.lib''
      \<longrightarrow> file_components dirpath target name = []) \<and>
   (endswith name ''.exe'' \<longrightarrow> file_components dirpath target name = []) \<and>
   find_components
      (map (\<lambda>(d, fs). (d, filter (\<lambda>n. endswith n ''.dll'' \<or> endswith n ''.pdb'' \<or> endswith n ''.lib'') fs)) walk) target
     = find_components walk target"
  using endswith_exe [of name]
  by (simp add: component_type_def file_components_def find_components_filter)

theorem unrecognised_extension_witness:
  "component_type \<lparr>abspath = ''C:/Qt/bin/moc.exe'', targetpath = ''C:/tmp'', cls = Component\<rparr>
     = Inl UnknownFileType \<and>
   file_components ''C:/Qt/bin'' ''C:/tmp'' ''moc.exe'' = [] \<and>
   find_components [(''C:/Qt/bin'', [''moc.exe'', ''Qt5Core.lib''])] ''C:/tmp''
     = find_components [(''C:/Qt/bin'', [''Qt5Core.lib''])] ''C:/tmp''"
proof -
  let ?c = "\<lparr>abspath = ''C:/Qt/bin/moc.exe'', targetpath = ''C:/tmp'', cls = Component\<rparr>"
  have x: "extension ?c \<noteq> ''.dll'' \<and> extension ?c \<noteq> ''.pdb'' \<and> extension ?c \<noteq> ''.lib''"
    by code_simp
  have e: "endswith ''moc.exe'' ''.exe''" by (simp add: endswith_def)
  have 1: "component_type ?c = Inl UnknownFileType"
    using unrecognised_extension [of ?c] x by blast
  have 2: "file_components ''C:/Qt/bin'' ''C:/tmp'' ''moc.exe'' = []"
    using unrecognised_extension [of _ "''moc.exe''" "''C:/Qt/bin''" "''C:/tmp''"] e by blast
  have 3: "find_components (map (\<lambda>(d, fs). (d, filter (\<lambda>n. endswith n ''.dll'' \<or> endswith n ''.pdb'' \<or> endswith n ''.lib'') fs)) [(''C:/Qt/bin'', [''moc.exe'', ''Qt5Core.lib''])]) ''C:/tmp''
     = find_components [(''C:/Qt/bin'', [''moc.exe'', ''Qt5Core.lib''])] ''C:/tmp''"
    using unrecognised_extension by blast
  have 4: "map (\<lambda>(d, fs). (d, filter (\<lambda>n. endswith n ''.dll'' \<or> endswith n ''.pdb'' \<or> endswith n ''.lib'') fs)) [(''C:/Qt/bin'', [''moc.exe'', ''Qt5Core.lib''])] = [(''C:/Qt/bin'', [''Qt5Core.lib''])]"
    by (simp add: endswith_def)
  show ?thesis using 1 2 3 unfolding 4 by simp
qed

text \<open>
  The claim as stated fails for \<open>moc.exe\<close> in a \<open>bin\<close> directory: discovery returns no
  component for it and ingestion ends without an error, with an empty registry.
\<close>

theorem unrecognised_extension_counterexample:
  "find_components [(''C:/Qt/bin'', [''moc.exe''])] ''C:/tmp'' = [] \<and>
   ingest_all \<lparr>path_exists = (\<lambda>p. False), dumpbin_headers = (\<lambda>p. None),
               dumpbin_dependents = (\<lambda>p. None)\<rparr> ''latest'' []
     (find_components [(''C:/Qt/bin'', [''moc.exe''])] ''C:/tmp'') = Inr []"
  by code_simp

section \<open>Architecture\<close>

lemma splitext_append: "fst (splitext p) @ snd (splitext p) = p"
proof (cases "CHR ''.'' \<in> set (dropWhile (\<lambda>c. c = CHR ''.'') (basename p))")
  case False
  then show ?thesis by (simp add: splitext_def Let_def)
next
  case True
  let ?rest = "dropWhile (\<lambda>c. c = CHR ''.'') (basename p)"
  let ?N = "\<lambda>c. c \<noteq> CHR ''.''"
  have "dropWhile ?N (rev ?rest) \<noteq> []"
    using True by (simp add: dropWhile_eq_Nil_conv)
  moreover have "hd (dropWhile ?N (rev ?rest)) = CHR ''.''"
    using calculation hd_dropWhile [of ?N "rev ?rest"] by blast
  ultimately have d: "dropWhile ?N (rev ?rest) = CHR ''.'' # tl (dropWhile ?N (rev ?rest))"
    by (metis list.collapse)
  have "rev ?rest = takeWhile ?N (rev ?rest) @ dropWhile ?N (rev ?rest)" by simp
  then have "rev ?rest = takeWhile ?N (rev ?rest) @ CHR ''.'' # tl (dropWhile ?N (rev ?rest))"
    using d by simp
  then have "rev (rev ?rest) = rev (takeWhile ?N (rev ?rest) @ CHR ''.'' # tl (dropWhile ?N (rev ?rest)))"
    by simp
  then have r: "?rest = rev (tl (dropWhile ?N (rev ?rest))) @ CHR ''.'' # rev (takeWhile ?N (rev ?rest))"
    by simp
  have b: "basename p = takeWhile (\<lambda>c. c = CHR ''.'') (basename p) @ ?rest" by simp
  have p: "p = dirpart p @ basename p"
    unfolding dirpart_def basename_def
    by (metis rev_append rev_rev_ident takeWhile_dropWhile_id)
  have "fst (splitext p) @ snd (splitext p) =
      dirpart p @ takeWhile (\<lambda>c. c = CHR ''.'') (basename p) @
        (rev (tl (dropWhile ?N (rev ?rest))) @ CHR ''.'' # rev (takeWhile ?N (rev ?rest)))"
    using True by (simp add: splitext_def Let_def)
  also have "\<dots> = dirpart p @ takeWhile (\<lambda>c. c = CHR ''.'') (basename p) @ ?rest"
    using r by simp
  also have "\<dots> = p" using b p by simp
  finally show ?thesis .
qed

lemma component_type_symbol_iff: "component_type c = Inr TYPE_SYMBOL \<longleftrightarrow> extension c = ''.pdb''"
  by (simp add: component_type_def)

text \<open>
  Claim C8. For a symbol file the path is its stem followed by \<open>.pdb\<close>. Its architecture is
  what dumpbin reports for the stem followed by \<open>.dll\<close> when that file exists, else for the
  stem followed by \<open>.lib\<close> when that file exists; when neither exists the derivation raises.
\<close>

theorem symbol_arch_from_sibling:
  assumes "component_type c = Inr TYPE_SYMBOL"
  shows "abspath c = fst (splitext (abspath c)) @ ''.pdb'' \<and>
         (path_exists ev (fst (splitext (abspath c)) @ ''.dll'') \<longrightarrow>
            component_arch ev c = headers_arch ev (fst (splitext (abspath c)) @ ''.dll'')) \<and>
         (\<not> path_exists ev (fst (splitext (abspath c)) @ ''.dll'') \<and>
          path_exists ev (fst (splitext (abspath c)) @ ''.lib'') \<longrightarrow>
            component_arch ev c = headers_arch ev (fst (splitext (abspath c)) @ ''.lib'')) \<and>
         (\<not> path_exists ev (fst (splitext (abspath c)) @ ''.dll'') \<and>
          \<not> path_exists ev (fst (splitext (abspath c)) @ ''.lib'') \<longrightarrow>
            component_arch ev c = Inl CantFindBinary)"
proof -
  have "snd (splitext (abspath c)) = ''.pdb''"
    using assms by (simp add: component_type_symbol_iff extension_def)
  then have "abspath c = fst (splitext (abspath c)) @ ''.pdb''"
    using splitext_append [of "abspath c"] by simp
  then show ?thesis
    using assms by (simp add: component_arch_def check_name_def Let_def)
qed

theorem symbol_arch_from_sibling_witness:
  "component_type \<lparr>abspath = ''C:/Qt/bin/Qt5Gui.pdb'', targetpath = ''C:/tmp'', cls = Component\<rparr>
     = Inr TYPE_SYMBOL \<and>
   component_arch
     \<lparr>path_exists = (\<lambda>p. p = ''C:/Qt/bin/Qt5Gui.dll'' \<or> p = ''C:/Qt/bin/Qt5Gui.lib''),
      dumpbin_headers = (\<lambda>p. if p = ''C:/Qt/bin/Qt5Gui.dll'' then Some ''8664 machine (x64)''
                              else Some ''14C machine (x86)''),
      dumpbin_dependents = (\<lambda>p. None)\<rparr>
     \<lparr>abspath = ''C:/Qt/bin/Qt5Gui.pdb'', targetpath = ''C:/tmp'', cls = Component\<rparr>
     = Inr (Some ''x64'') \<and>
   component_arch
     \<lparr>path_exists = (\<lambda>p. p = ''C:/Qt/bin/Qt5Gui.lib''),
      dumpbin_headers = (\<lambda>p. if p = ''C:/Qt/bin/Qt5Gui.dll'' then Some ''8664 machine (x64)''
                              else Some ''14C machine (x86)''),
      dumpbin_dependents = (\<lambda>p. None)\<rparr>
     \<lparr>abspath = ''C:/Qt/bin/Qt5Gui.pdb'', targetpath = ''C:/tmp'', cls = Component\<rparr>
     = Inr (Some ''x86'') \<and>
   component_arch
     \<lparr>path_exists = (\<lambda>p. False),
      dumpbin_headers = (\<lambda>p. Some ''8664 machine (x64)''),
      dumpbin_dependents = (\<lambda>p. None)\<rparr>
     \<lparr>abspath = ''C:/Qt/bin/Qt5Gui.pdb'', targetpath = ''C:/tmp'', cls = Component\<rparr>
     = Inl CantFindBinary"
proof -
  let ?c = "\<lparr>abspath = ''C:/Qt/bin/Qt5Gui.pdb'', targetpath = ''C:/tmp'', cls = Component\<rparr>"
  let ?H = "\<lambda>p. if p = ''C:/Qt/bin/Qt5Gui.dll'' then Some ''8664 machine (x64)''
                              else Some ''14C machine (x86)''"
  let ?e1 = "\<lparr>path_exists = (\<lambda>p. p = ''C:/Qt/bin/Qt5Gui.dll'' \<or> p = ''C:/Qt/bin/Qt5Gui.lib''),
      dumpbin_headers = ?H, dumpbin_dependents = (\<lambda>p. None)\<rparr>"
  let ?e2 = "\<lparr>path_exists = (\<lambda>p. p = ''C:/Qt/bin/Qt5Gui.lib''),
      dumpbin_headers = ?H, dumpbin_dependents = (\<lambda>p. None)\<rparr>"
  let ?e3 = "\<lparr>path_exists = (\<lambda>p. False),
      dumpbin_headers = (\<lambda>p. Some ''8664 machine (x64)''), dumpbin_dependents = (\<lambda>p. None)\<rparr>"
  have t: "component_type ?c = Inr TYPE_SYMBOL" by code_simp
  have s: "fst (splitext (abspath ?c)) = ''C:/Qt/bin/Qt5Gui''" by code_simp
  have h1: "headers_arch ?e1 ''C:/Qt/bin/Qt5Gui.dll'' = Inr (Some ''x64'')" by code_simp
  have h2: "headers_arch ?e2 ''C:/Qt/bin/Qt5Gui.lib'' = Inr (Some ''x86'')" by code_simp
  have 1: "component_arch ?e1 ?c = Inr (Some ''x64'')"
    using symbol_arch_from_sibling [OF t, of ?e1] h1 unfolding s by simp
  have 2: "component_arch ?e2 ?c = Inr (Some ''x86'')"
    using symbol_arch_from_sibling [OF t, of ?e2] h2 unfolding s by simp
  have 3: "component_arch ?e3 ?c = Inl CantFindBinary"
    using symbol_arch_from_sibling [OF t, of ?e3] unfolding s by simp
  show ?thesis using t 1 2 3 by blast
qed

lemma scan_machine_None:
  "scan_machine ls = None \<longleftrightarrow>
     (\<forall>l\<in>set ls. \<not> ((startswith (strip l) ''8664'' \<or> startswith (strip l) ''14C'') \<and>
                       contains ''machine'' (strip l)))"
  by (induction ls) (auto simp: Let_def)

text \<open>
  When dumpbin runs and none of its lines qualifies, the architecture is Python's \<open>None\<close>:
  no error is raised.
\<close>

lemma component_arch_no_machine_line:
  assumes "check_name ev c = Inr name" and "dumpbin_headers ev name = Some out"
    and "\<forall>l\<in>set (split_crlf out).
           \<not> ((startswith (strip l) ''8664'' \<or> startswith (strip l) ''14C'') \<and>
               contains ''machine'' (strip l))"
  shows "component_arch ev c = Inr None"
  using assms by (simp add: component_arch_def headers_arch_def scan_machine_None)

text \<open>
  Claim C5 fails on the code. For the binary \<open>Qt5Core.dll\<close>, with dumpbin printing the
  header of an ARM file, the architecture is \<open>None\<close> without any error, and ingestion
  files the binary in a configuration whose architecture is \<open>None\<close>.
\<close>

theorem component_arch_silently_absent:
  "component_arch
     \<lparr>path_exists = (\<lambda>p. True), dumpbin_headers = (\<lambda>p. Some ''             1C4 machine (ARM)''),
      dumpbin_dependents = (\<lambda>p. None)\<rparr>
     \<lparr>abspath = ''C:/Qt/bin/Qt5Core.dll'', targetpath = ''C:/tmp'', cls = DLLComponent\<rparr>
     = Inr None \<and>
   ingest
     \<lparr>path_exists = (\<lambda>p. True), dumpbin_headers = (\<lambda>p. Some ''             1C4 machine (ARM)''),
      dumpbin_dependents = (\<lambda>p. None)\<rparr> ''latest'' []
     \<lparr>abspath = ''C:/Qt/bin/Qt5Core.dll'', targetpath = ''C:/tmp'', cls = DLLComponent\<rparr>
     = Inr [(''qt5core'',
        \<lparr>pkg_id = ''qt5core-msvc2013'', pkg_name = ''qt5core'', version = ''5.4.1'',
          configurations =
            [\<lparr>cfg_arch = None, cfg_build = BUILD_RELEASE,
              binaries = [\<lparr>abspath = ''C:/Qt/bin/Qt5Core.dll'', targetpath = ''C:/tmp'',
                           cls = DLLComponent\<rparr>],
              symbols = [], libraries = []\<rparr>],
          dependencies = {}\<rparr>)]"
  by code_simp

section \<open>Dependencies\<close>

text \<open>The loops only ever take the package's own name out of the set.\<close>

lemma deps_binaries_keeps:
  "deps_binaries ev pn deps bs = Inr deps' \<Longrightarrow> x \<in> deps \<Longrightarrow> x \<noteq> pn \<Longrightarrow> x \<in> deps'"
proof (induction bs arbitrary: deps)
  case Nil
  then show ?case by simp
next
  case (Cons b bs)
  from Cons.prems(1) obtain d where d: "component_dependencies ev b = Inr d"
    by (cases "component_dependencies ev b") auto
  let ?deps2 = "if pn \<in> deps \<union> d then deps \<union> d - {pn} else deps \<union> d"
  have "deps_binaries ev pn ?deps2 bs = Inr deps'"
    using Cons.prems(1) d by (simp add: Let_def)
  moreover have "x \<in> ?deps2" using Cons.prems(2,3) by simp
  ultimately show ?case using Cons.IH Cons.prems(3) by blast
qed

lemma deps_binaries_no_self:
  "deps_binaries ev pn deps bs = Inr deps' \<Longrightarrow> bs \<noteq> [] \<or> pn \<notin> deps \<Longrightarrow> pn \<notin> deps'"
proof (induction bs arbitrary: deps)
  case Nil
  then show ?case by simp
next
  case (Cons b bs)
  from Cons.prems(1) obtain d where d: "component_dependencies ev b = Inr d"
    by (cases "component_dependencies ev b") auto
  let ?deps2 = "if pn \<in> deps \<union> d then deps \<union> d - {pn} else deps \<union> d"
  have "deps_binaries ev pn ?deps2 bs = Inr deps'"
    using Cons.prems(1) d by (simp add: Let_def)
  moreover have "pn \<notin> ?deps2" by simp
  ultimately show ?case using Cons.IH by blast
qed

lemma deps_binaries_Nil_conv: "deps_binaries ev pn deps [] = Inr deps' \<longleftrightarrow> deps' = deps"
  by auto

lemma deps_configs_keeps:
  "deps_configs ev pn deps cs = Inr deps' \<Longrightarrow> x \<in> deps \<Longrightarrow> x \<noteq> pn \<Longrightarrow> x \<in> deps'"
proof (induction cs arbitrary: deps)
  case Nil
  then show ?case by simp
next
  case (Cons c cs)
  from Cons.prems(1) obtain d where d: "deps_binaries ev pn deps (binaries c) = Inr d"
    by (cases "deps_binaries ev pn deps (binaries c)") auto
  then have "x \<in> d" using deps_binaries_keeps Cons.prems(2,3) by blast
  moreover have "deps_configs ev pn d cs = Inr deps'" using Cons.prems(1) d by simp
  ultimately show ?case using Cons.IH Cons.prems(3) by blast
qed

lemma deps_configs_no_self:
  "deps_configs ev pn deps cs = Inr deps' \<Longrightarrow>
     (\<exists>c\<in>set cs. binaries c \<noteq> []) \<or> pn \<notin> deps \<Longrightarrow> pn \<notin> deps'"
proof (induction cs arbitrary: deps)
  case Nil
  then show ?case by simp
next
  case (Cons c cs)
  from Cons.prems(1) obtain d where d: "deps_binaries ev pn deps (binaries c) = Inr d"
    by (cases "deps_binaries ev pn deps (binaries c)") auto
  have rest: "deps_configs ev pn d cs = Inr deps'" using Cons.prems(1) d by simp
  show ?case
  proof (cases "binaries c \<noteq> [] \<or> pn \<notin> deps")
    case True
    then have "pn \<notin> d" using deps_binaries_no_self [OF d] by blast
    then show ?thesis using Cons.IH [OF rest] by blast
  next
    case False
    then have "\<exists>c\<in>set cs. binaries c \<noteq> []" using Cons.prems(2) by auto
    then show ?thesis using Cons.IH [OF rest] by blast
  qed
qed

lemma deps_configs_no_binaries:
  "\<forall>c\<in>set cs. binaries c = [] \<Longrightarrow> deps_configs ev pn deps cs = Inr deps"
  by (induction cs) auto

lemma compute_dependencies_lookup:
  "compute_dependencies ev packages = Inr packages' \<Longrightarrow> (pn, p') \<in> set packages' \<Longrightarrow>
     \<exists>p deps. (pn, p) \<in> set packages \<and> p' = p\<lparr>dependencies := deps\<rparr> \<and>
       deps_configs ev pn (set FIXED_DEPS) (configurations p) = Inr deps"
proof (induction packages arbitrary: packages')
  case Nil
  then show ?case by simp
next
  case (Cons a packages)
  obtain n q where a: "a = (n, q)" by (cases a)
  from Cons.prems(1) obtain deps where
    deps: "deps_configs ev n (set FIXED_DEPS) (configurations q) = Inr deps"
    unfolding a by (cases "deps_configs ev n (set FIXED_DEPS) (configurations q)") auto
  from Cons.prems(1) obtain rest' where rest: "compute_dependencies ev packages = Inr rest'"
    unfolding a using deps by (cases "compute_dependencies ev packages") auto
  have res: "packages' = (n, q\<lparr>dependencies := deps\<rparr>) # rest'"
    using Cons.prems(1) deps rest unfolding a by simp
  show ?case
  proof (cases "(pn, p') = (n, q\<lparr>dependencies := deps\<rparr>)")
    case True
    then show ?thesis using deps a by auto
  next
    case False
    then have "(pn, p') \<in> set rest'" using Cons.prems(2) res by auto
    then show ?thesis using Cons.IH [OF rest] by auto
  qed
qed

text \<open>
  What the pass does guarantee: every package other than the base package depends on the
  base package, and a package that has a binary, or is not the base package, does not
  depend on itself.
\<close>

lemma compute_dependencies_base:
  assumes "compute_dependencies ev packages = Inr packages'" and "(pn, p') \<in> set packages'"
    and "pn \<noteq> ''qt5core''"
  shows "''qt5core'' \<in> dependencies p'"
proof -
  obtain p deps where "p' = p\<lparr>dependencies := deps\<rparr>"
    and d: "deps_configs ev pn (set FIXED_DEPS) (configurations p) = Inr deps"
    using compute_dependencies_lookup [OF assms(1,2)] by blast
  moreover have "''qt5core'' \<in> deps"
    using deps_configs_keeps [OF d, of "''qt5core''"] assms(3) by (simp add: FIXED_DEPS_def)
  ultimately show ?thesis by simp
qed

lemma compute_dependencies_no_self:
  assumes "compute_dependencies ev packages = Inr packages'" and "(pn, p') \<in> set packages'"
    and "pn \<noteq> ''qt5core'' \<or> (\<exists>c\<in>set (configurations p'). binaries c \<noteq> [])"
  shows "pn \<notin> dependencies p'"
proof -
  obtain p deps where p: "p' = p\<lparr>dependencies := deps\<rparr>"
    and d: "deps_configs ev pn (set FIXED_DEPS) (configurations p) = Inr deps"
    using compute_dependencies_lookup [OF assms(1,2)] by blast
  have "(\<exists>c\<in>set (configurations p). binaries c \<noteq> []) \<or> pn \<notin> set FIXED_DEPS"
    using assms(3) p by (auto simp: FIXED_DEPS_def)
  then have "pn \<notin> deps" using deps_configs_no_self [OF d] by blast
  then show ?thesis using p by simp
qed

text \<open>
  Claim C1 fails on the code. The registry holds the package \<open>qt5core\<close> with one
  configuration that has a static library and no binary. The loop over the binaries runs
  no round, the test that removes the own name is never reached, and the package keeps its
  own name in its dependency set.
\<close>

theorem compute_dependencies_keeps_own_name:
  "compute_dependencies
     \<lparr>path_exists = (\<lambda>p. True), dumpbin_headers = (\<lambda>p. Some ''8664 machine (x64)''),
      dumpbin_dependents = (\<lambda>p. Some [])\<rparr>
     [(''qt5core'',
        \<lparr>pkg_id = ''qt5core-msvc2013'', pkg_name = ''qt5core'', version = ''5.4.1'',
          configurations =
            [\<lparr>cfg_arch = Some ''x64'', cfg_build = BUILD_RELEASE, binaries = [], symbols = [],
              libraries = [\<lparr>abspath = ''C:/Qt/lib/Qt5Core.lib'', targetpath = ''C:/tmp'',
                            cls = Component\<rparr>]\<rparr>],
          dependencies = {}\<rparr>)]
   = Inr [(''qt5core'',
        \<lparr>pkg_id = ''qt5core-msvc2013'', pkg_name = ''qt5core'', version = ''5.4.1'',
          configurations =
            [\<lparr>cfg_arch = Some ''x64'', cfg_build = BUILD_RELEASE, binaries = [], symbols = [],
              libraries = [\<lparr>abspath = ''C:/Qt/lib/Qt5Core.lib'', targetpath = ''C:/tmp'',
                            cls = Component\<rparr>]\<rparr>],
          dependencies = {''qt5core''}\<rparr>)]"
  by (simp add: FIXED_DEPS_def)

text \<open>
  Claim C4 fails on the code at the base package. Ingesting \<open>Qt5Core.lib\<close> and
  \<open>Qt5Core.pdb\<close> gives a registry whose package \<open>qt5core\<close> has no binary; after the pass
  the base dependency \<open>qt5core\<close> is in the dependency set of the base package itself.
\<close>

theorem base_package_depends_on_itself:
  "map_sum id (map (\<lambda>(name, p). (name, dependencies p)))
     (case ingest_all
        \<lparr>path_exists = (\<lambda>p. p = join ''C:/Qt/lib'' ''Qt5Core.lib'' \<or>
                               p = join ''C:/Qt/lib'' ''Qt5Core.pdb''),
         dumpbin_headers = (\<lambda>p. Some ''8664 machine (x64)''),
         dumpbin_dependents = (\<lambda>p. Some [])\<rparr> ''latest'' []
        (find_components [(''C:/Qt/lib'', [''Qt5Core.lib'', ''Qt5Core.pdb''])] ''C:/tmp'') of
        Inl e \<Rightarrow> Inl e
      | Inr packages \<Rightarrow>
          compute_dependencies
            \<lparr>path_exists = (\<lambda>p. p = join ''C:/Qt/lib'' ''Qt5Core.lib'' \<or>
                                   p = join ''C:/Qt/lib'' ''Qt5Core.pdb''),
             dumpbin_headers = (\<lambda>p. Some ''8664 machine (x64)''),
             dumpbin_dependents = (\<lambda>p. Some [])\<rparr> packages)
   = Inr [(''qt5core'', set FIXED_DEPS)]"
  by code_simp

section \<open>Configurations: positions, keys, contents\<close>

lemma find_config_Some:
  "find_config cs a b = Some i \<Longrightarrow>
     i < length cs \<and> cfg_arch (cs ! i) = a \<and> cfg_build (cs ! i) = b"
proof (induction cs arbitrary: i)
  case Nil
  then show ?case by simp
next
  case (Cons c cs)
  show ?case
  proof (cases "cfg_arch c = a \<and> cfg_build c = b")
    case True
    then show ?thesis using Cons.prems by auto
  next
    case False
    then obtain j where "find_config cs a b = Some j" and "i = Suc j"
      using Cons.prems by auto
    then show ?thesis using Cons.IH by auto
  qed
qed

lemma find_config_None:
  "find_config cs a b = None \<longleftrightarrow> (\<forall>c\<in>set cs. \<not> (cfg_arch c = a \<and> cfg_build c = b))"
  by (induction cs) auto

lemma find_config_keys:
  "map (\<lambda>c. (cfg_arch c, cfg_build c)) cs = map (\<lambda>c. (cfg_arch c, cfg_build c)) cs' \<Longrightarrow>
     find_config cs a b = find_config cs' a b"
proof (induction cs arbitrary: cs')
  case Nil
  then show ?case by simp
next
  case (Cons c cs)
  then obtain d ds where "cs' = d # ds" by (cases cs') auto
  then show ?case using Cons by auto
qed

lemma find_config_append_new:
  "find_config cs a b = None \<Longrightarrow> find_config (cs @ [PackageConfig a b]) a b = Some (length cs)"
  by (induction cs) (auto simp: PackageConfig_def split: if_splits)

text \<open>\<open>add_component\<close> succeeds exactly on a component of a known type, and adds it.\<close>

lemma add_component_Inr:
  "component_type c = Inr t \<Longrightarrow> \<exists>cfg'. add_component cfg c = Inr cfg'"
  by (cases t) (simp_all add: add_component_def)

lemma add_component_typed:
  "add_component cfg c = Inr cfg' \<Longrightarrow> \<exists>t. component_type c = Inr t"
  by (cases "component_type c") (simp_all add: add_component_def)

lemma add_component_props:
  assumes "add_component cfg c = Inr cfg'"
  shows "cfg_arch cfg' = cfg_arch cfg" and "cfg_build cfg' = cfg_build cfg"
    and "mset (config_all cfg') = mset (config_all cfg) + {#c#}"
    and "set (config_all cfg') = insert c (set (config_all cfg))"
proof -
  obtain t where t: "component_type c = Inr t" using add_component_typed [OF assms] by blast
  show "cfg_arch cfg' = cfg_arch cfg" "cfg_build cfg' = cfg_build cfg"
    "mset (config_all cfg') = mset (config_all cfg) + {#c#}"
    "set (config_all cfg') = insert c (set (config_all cfg))"
    using assms t by (cases t; auto simp: add_component_def config_all_def)+
qed

lemma sum_list_map_update:
  fixes f :: "'a \<Rightarrow> 'b multiset"
  shows "i < length xs \<Longrightarrow> f y = f (xs ! i) + d \<Longrightarrow>
     sum_list (map f (xs[i := y])) = sum_list (map f xs) + d"
proof (induction xs arbitrary: i)
  case Nil
  then show ?case by simp
next
  case (Cons x xs)
  then show ?case by (cases i) (simp_all add: ac_simps)
qed

lemma sum_list_filter_update:
  fixes f :: "'a \<Rightarrow> 'b multiset"
  shows "i < length xs \<Longrightarrow> P y = P (xs ! i) \<Longrightarrow> f y = f (xs ! i) + d \<Longrightarrow>
     sum_list (map f (filter P (xs[i := y]))) =
       sum_list (map f (filter P xs)) + (if P (xs ! i) then d else {#})"
proof (induction xs arbitrary: i)
  case Nil
  then show ?case by simp
next
  case (Cons x xs)
  then show ?case by (cases i) (simp_all add: ac_simps)
qed

lemma get_config_found:
  "get_config p a b = (p', i) \<Longrightarrow> find_config (configurations p') a b = Some i"
  by (auto simp: get_config_def find_config_append_new split: option.splits)

lemma get_config_fields:
  assumes "get_config p a b = (p', i)"
  shows "pkg_id p' = pkg_id p" and "pkg_name p' = pkg_name p" and "version p' = version p"
    and "dependencies p' = dependencies p"
    and "package_artifacts p' = package_artifacts p"
    and "bucket_artifacts p' x y = bucket_artifacts p x y"
    and "set (configurations p') \<subseteq> insert (PackageConfig a b) (set (configurations p))"
  using assms
  by (auto simp: get_config_def package_artifacts_def bucket_artifacts_def PackageConfig_def
      config_all_def split: option.splits)

lemma get_config_same:
  "find_config (configurations p) a b = Some i \<Longrightarrow> get_config p a b = (p, i)"
  by (simp add: get_config_def)

text \<open>Adding at a valid position: the keys stay, the contents grow by the component.\<close>

lemma add_at_Inr:
  "component_type c = Inr t \<Longrightarrow> \<exists>p'. add_at p i c = Inr p'"
  using add_component_Inr [of c t "configurations p ! i"] by (auto simp: add_at_def)

lemma add_at_props:
  assumes "add_at p i c = Inr p'" and "i < length (configurations p)"
  shows "pkg_id p' = pkg_id p" and "pkg_name p' = pkg_name p" and "version p' = version p"
    and "dependencies p' = dependencies p"
    and "length (configurations p') = length (configurations p)"
    and "map (\<lambda>c. (cfg_arch c, cfg_build c)) (configurations p') =
         map (\<lambda>c. (cfg_arch c, cfg_build c)) (configurations p)"
    and "package_artifacts p' = package_artifacts p + {#c#}"
    and "bucket_artifacts p' x y = bucket_artifacts p x y +
          (if cfg_arch (configurations p ! i) = x \<and> cfg_build (configurations p ! i) = y
           then {#c#} else {#})"
    and "\<exists>cfg. add_component (configurations p ! i) c = Inr cfg \<and>
           configurations p' = (configurations p)[i := cfg]"
proof -
  obtain cfg where cfg: "add_component (configurations p ! i) c = Inr cfg"
    and p': "p' = p\<lparr>configurations := (configurations p)[i := cfg]\<rparr>"
    using assms(1) by (cases "add_component (configurations p ! i) c") (auto simp: add_at_def)
  note ac = add_component_props [OF cfg]
  show "pkg_id p' = pkg_id p" "pkg_name p' = pkg_name p" "version p' = version p"
    "dependencies p' = dependencies p" "length (configurations p') = length (configurations p)"
    by (simp_all add: p')
  show "map (\<lambda>c. (cfg_arch c, cfg_build c)) (configurations p') =
         map (\<lambda>c. (cfg_arch c, cfg_build c)) (configurations p)"
    using assms(2) ac(1,2) by (simp add: p' map_update list_update_same_conv)
  show "package_artifacts p' = package_artifacts p + {#c#}"
    unfolding package_artifacts_def p' using assms(2) ac(3)
    by (simp add: sum_list_map_update)
  show "bucket_artifacts p' x y = bucket_artifacts p x y +
          (if cfg_arch (configurations p ! i) = x \<and> cfg_build (configurations p ! i) = y
           then {#c#} else {#})"
    unfolding bucket_artifacts_def p' using assms(2) ac(1,2,3)
    by (simp add: sum_list_filter_update)
  show "\<exists>cfg. add_component (configurations p ! i) c = Inr cfg \<and>
           configurations p' = (configurations p)[i := cfg]"
    using cfg p' by simp
qed

section \<open>Ingestion\<close>

lemma normalized_name_lower: "lower (normalized_name c) = normalized_name c"
  by (simp add: normalized_name_def file_to_package_idem_lower)

lemma from_component_result:
  assumes "from_component ev c = Inr package"
  shows "\<exists>a i. component_arch ev c = Inr a \<and> pkg_name package = normalized_name c \<and>
           find_config (configurations package) a (component_build c) = Some i"
proof -
  obtain a where a: "component_arch ev c = Inr a"
    using assms by (cases "component_arch ev c") (auto simp: from_component_def Let_def)
  let ?q = "QtPackage (normalized_name c @ ''-'' @ vs_version) (normalized_name c)"
  obtain q i where g: "get_config ?q a (component_build c) = (q, i)"
    by (cases "get_config ?q a (component_build c)")
  have add: "add_at q i c = Inr package"
    using assms a g by (simp add: from_component_def Let_def)
  have f: "find_config (configurations q) a (component_build c) = Some i"
    using get_config_found [OF g] .
  then have i: "i < length (configurations q)" using find_config_Some by blast
  have "find_config (configurations package) a (component_build c) = Some i"
    using find_config_keys [OF add_at_props(6) [OF add i]] f by simp
  moreover have "pkg_name package = normalized_name c"
    using add_at_props(2) [OF add i] get_config_fields(2) [OF g]
    by (simp add: QtPackage_def normalized_name_lower)
  ultimately show ?thesis using a by blast
qed

text \<open>
  After a successful round the package of the component is in the registry and has a
  configuration for the component's architecture and build.
\<close>

lemma ingest_Inr_cases:
  assumes "ingest ev v packages c = Inr packages1"
  obtains (existing) t a p p' i p'' where
      "component_type c = Inr t" "component_arch ev c = Inr a"
      "map_of packages (normalized_name c) = Some p"
      "get_config p a (component_build c) = (p', i)" "add_at p' i c = Inr p''"
      "packages1 = AList.update (normalized_name c) p'' packages"
  | (new) t a package where
      "component_type c = Inr t" "component_arch ev c = Inr a"
      "map_of packages (normalized_name c) = None"
      "from_component ev c = Inr package"
      "packages1 = AList.update (pkg_name package)
         (package\<lparr>version := (if v = ''latest'' then QT_LATEST else v)\<rparr>) packages"
  using assms unfolding ingest_def Let_def
  by (auto split: sum.splits option.splits prod.splits)

lemma ingest_existing:
  assumes "component_type c = Inr t" and "component_arch ev c = Inr a"
    and "map_of packages (normalized_name c) = Some p"
    and "get_config p a (component_build c) = (p', i)" and "add_at p' i c = Inr p''"
  shows "ingest ev v packages c = Inr (AList.update (normalized_name c) p'' packages)"
  unfolding ingest_def using assms by simp

lemma ingest_result:
  assumes "ingest ev v packages c = Inr packages1"
  shows "\<exists>t a p1 i. component_type c = Inr t \<and> component_arch ev c = Inr a \<and>
           map_of packages1 (normalized_name c) = Some p1 \<and>
           find_config (configurations p1) a (component_build c) = Some i"
  using assms
proof (cases rule: ingest_Inr_cases)
  case (existing t a p p' i p'')
  have f: "find_config (configurations p') a (component_build c) = Some i"
    using get_config_found [OF existing(4)] .
  then have i: "i < length (configurations p')" using find_config_Some by blast
  have "map_of packages1 (normalized_name c) = Some p''"
    unfolding existing(6) by (simp add: update_conv')
  moreover have "find_config (configurations p'') a (component_build c) = Some i"
    using find_config_keys [OF add_at_props(6) [OF existing(5) i]] f by simp
  ultimately show ?thesis using existing(1,2) by blast
next
  case (new t a package)
  let ?p = "package\<lparr>version := (if v = ''latest'' then QT_LATEST else v)\<rparr>"
  obtain a' i where r: "component_arch ev c = Inr a'" "pkg_name package = normalized_name c"
    "find_config (configurations package) a' (component_build c) = Some i"
    using from_component_result [OF new(4)] by blast
  have "map_of packages1 (normalized_name c) = Some ?p"
    unfolding new(5) r(2) by (simp only: update_conv' fun_upd_same)
  moreover have "find_config (configurations ?p) a (component_build c) = Some i"
    using r(1,3) new(2) by simp
  ultimately show ?thesis using new(1,2) by blast
qed

lemma keys_update_present:
  "k \<in> fst ` set al \<Longrightarrow> map fst (AList.update k v al) = map fst al"
  by (induction al) auto

lemma map_of_in_keys: "map_of al k = Some v \<Longrightarrow> k \<in> fst ` set al"
  by (metis domI dom_map_of_conv_image_fst)

text \<open>
  Claim C6. When a round of ingestion has succeeded, a second round with the same
  component succeeds too. It leaves the keys of the registry as they are, and every
  package other than the component's as it is. The component's package keeps its identity,
  name, version and number of configurations; one configuration, at a position \<open>i\<close>, has
  received the component once more through \<open>add_component\<close>, and nothing else changed.
\<close>

theorem ingest_twice:
  assumes "ingest ev v packages c = Inr packages1"
  shows "\<exists>packages2 p1 p2.
           ingest ev v packages1 c = Inr packages2 \<and>
           map fst packages2 = map fst packages1 \<and>
           length packages2 = length packages1 \<and>
           (\<forall>n. n \<noteq> normalized_name c \<longrightarrow> map_of packages2 n = map_of packages1 n) \<and>
           map_of packages1 (normalized_name c) = Some p1 \<and>
           map_of packages2 (normalized_name c) = Some p2 \<and>
           length (configurations p2) = length (configurations p1) \<and>
           pkg_id p2 = pkg_id p1 \<and> pkg_name p2 = pkg_name p1 \<and> version p2 = version p1 \<and>
           (\<exists>i cfg. i < length (configurations p1) \<and>
              add_component (configurations p1 ! i) c = Inr cfg \<and>
              configurations p2 = (configurations p1)[i := cfg]) \<and>
           package_artifacts p2 = package_artifacts p1 + {#c#}"
proof -
  obtain t a p1 i where t: "component_type c = Inr t" and a: "component_arch ev c = Inr a"
    and p1: "map_of packages1 (normalized_name c) = Some p1"
    and f: "find_config (configurations p1) a (component_build c) = Some i"
    using ingest_result [OF assms] by blast
  have i: "i < length (configurations p1)" using find_config_Some [OF f] by blast
  obtain p2 where add: "add_at p1 i c = Inr p2" using add_at_Inr [OF t] by blast
  note props = add_at_props [OF add i]
  let ?packages2 = "AList.update (normalized_name c) p2 packages1"
  have step: "ingest ev v packages1 c = Inr ?packages2"
    using t a p1 get_config_same [OF f] add by (rule ingest_existing)
  have keys: "map fst ?packages2 = map fst packages1"
    by (rule keys_update_present [OF map_of_in_keys [OF p1]])
  have len: "length ?packages2 = length packages1"
    using arg_cong [OF keys, of length] by simp
  have others: "\<forall>n. n \<noteq> normalized_name c \<longrightarrow> map_of ?packages2 n = map_of packages1 n"
    by (simp only: update_conv' fun_upd_other) simp
  have p2: "map_of ?packages2 (normalized_name c) = Some p2"
    by (simp only: update_conv' fun_upd_same)
  have pos: "\<exists>i cfg. i < length (configurations p1) \<and>
              add_component (configurations p1 ! i) c = Inr cfg \<and>
              configurations p2 = (configurations p1)[i := cfg]"
    using props(9) i by blast
  show ?thesis
    by (rule exI [of _ ?packages2], rule exI [of _ p1], rule exI [of _ p2])
      (intro conjI step keys len others p1 p2 props(5) props(1) props(2) props(3) pos props(7))
qed

theorem ingest_twice_witness:
  "\<exists>packages1 packages2.
     ingest \<lparr>path_exists = (\<lambda>p. True), dumpbin_headers = (\<lambda>p. Some ''8664 machine (x64)''),
             dumpbin_dependents = (\<lambda>p. Some [])\<rparr> ''latest'' []
       \<lparr>abspath = ''C:/Qt/bin/Qt5Core.dll'', targetpath = ''C:/tmp'', cls = DLLComponent\<rparr>
       = Inr packages1 \<and>
     ingest \<lparr>path_exists = (\<lambda>p. True), dumpbin_headers = (\<lambda>p. Some ''8664 machine (x64)''),
             dumpbin_dependents = (\<lambda>p. Some [])\<rparr> ''latest'' packages1
       \<lparr>abspath = ''C:/Qt/bin/Qt5Core.dll'', targetpath = ''C:/tmp'', cls = DLLComponent\<rparr>
       = Inr packages2 \<and>
     map fst packages1 = [''qt5core''] \<and> map fst packages2 = [''qt5core''] \<and>
     map (\<lambda>(n, p). length (configurations p)) packages1 = [1] \<and>
     length packages2 = length packages1"
proof -
  let ?ev = "\<lparr>path_exists = (\<lambda>p. True), dumpbin_headers = (\<lambda>p. Some ''8664 machine (x64)''),
             dumpbin_dependents = (\<lambda>p. Some [])\<rparr>"
  let ?c = "\<lparr>abspath = ''C:/Qt/bin/Qt5Core.dll'', targetpath = ''C:/tmp'', cls = DLLComponent\<rparr>"
  let ?packages1 = "[(''qt5core'',
        \<lparr>pkg_id = ''qt5core-msvc2013'', pkg_name = ''qt5core'', version = ''5.4.1'',
          configurations =
            [\<lparr>cfg_arch = Some ''x64'', cfg_build = BUILD_RELEASE, binaries = [?c],
              symbols = [], libraries = []\<rparr>],
          dependencies = {}\<rparr>)]"
  have h: "ingest ?ev ''latest'' [] ?c = Inr ?packages1" by code_simp
  obtain packages2 where "ingest ?ev ''latest'' ?packages1 ?c = Inr packages2"
    and "map fst packages2 = map fst ?packages1" and "length packages2 = length ?packages1"
    using ingest_twice [OF h] by blast
  then show ?thesis using h by (intro exI [of _ ?packages1] exI [of _ packages2]) simp
qed

section \<open>Merge\<close>

lemma typed_package_artifacts:
  "typed_package p \<longleftrightarrow> (\<forall>c\<in>#package_artifacts p. \<not> isl (component_type c))"
  by (auto simp: typed_package_def package_artifacts_def)

lemma isl_component_type: "\<not> isl (component_type c) \<Longrightarrow> \<exists>t. component_type c = Inr t"
  by (cases "component_type c") auto

lemma add_all_at_props:
  assumes "i < length (configurations p)" and "\<forall>c\<in>set cs. \<not> isl (component_type c)"
  shows "\<exists>p'. add_all_at p i cs = Inr p' \<and>
           pkg_id p' = pkg_id p \<and> pkg_name p' = pkg_name p \<and> version p' = version p \<and>
           dependencies p' = dependencies p \<and>
           map (\<lambda>c. (cfg_arch c, cfg_build c)) (configurations p') =
             map (\<lambda>c. (cfg_arch c, cfg_build c)) (configurations p) \<and>
           package_artifacts p' = package_artifacts p + mset cs \<and>
           (\<forall>x y. bucket_artifacts p' x y = bucket_artifacts p x y +
              (if cfg_arch (configurations p ! i) = x \<and> cfg_build (configurations p ! i) = y
               then mset cs else {#}))"
  using assms
proof (induction cs arbitrary: p)
  case Nil
  then show ?case by simp
next
  case (Cons c cs)
  obtain t where "component_type c = Inr t" using Cons.prems(2) isl_component_type by auto
  then obtain p1 where add: "add_at p i c = Inr p1" using add_at_Inr by blast
  note props = add_at_props [OF add Cons.prems(1)]
  have len: "i < length (configurations p1)" using props(5) Cons.prems(1) by simp
  have key: "cfg_arch (configurations p1 ! i) = cfg_arch (configurations p ! i) \<and>
             cfg_build (configurations p1 ! i) = cfg_build (configurations p ! i)"
  proof -
    have "map (\<lambda>c. (cfg_arch c, cfg_build c)) (configurations p1) ! i =
          map (\<lambda>c. (cfg_arch c, cfg_build c)) (configurations p) ! i"
      using props(6) by simp
    then show ?thesis using len Cons.prems(1) by simp
  qed
  obtain p' where r: "add_all_at p1 i cs = Inr p'"
    "pkg_id p' = pkg_id p1" "pkg_name p' = pkg_name p1" "version p' = version p1"
    "dependencies p' = dependencies p1"
    "map (\<lambda>c. (cfg_arch c, cfg_build c)) (configurations p') =
       map (\<lambda>c. (cfg_arch c, cfg_build c)) (configurations p1)"
    "package_artifacts p' = package_artifacts p1 + mset cs"
    "\<forall>x y. bucket_artifacts p' x y = bucket_artifacts p1 x y +
        (if cfg_arch (configurations p1 ! i) = x \<and> cfg_build (configurations p1 ! i) = y
         then mset cs else {#})"
    using Cons.IH [OF len] Cons.prems(2) by auto
  have "add_all_at p i (c # cs) = Inr p'" using add r(1) by simp
  moreover have "package_artifacts p' = package_artifacts p + mset (c # cs)"
    using r(7) props(7) by simp
  moreover have "\<forall>x y. bucket_artifacts p' x y = bucket_artifacts p x y +
      (if cfg_arch (configurations p ! i) = x \<and> cfg_build (configurations p ! i) = y
       then mset (c # cs) else {#})"
    using r(8) props(8) key by simp
  ultimately show ?case
    using r(2-6) props(1-4,6) by simp
qed

text \<open>
  Merging the configurations of a typed package into a target succeeds; the target keeps
  its identity and receives, bucket by bucket, the artifacts of these configurations.
\<close>

lemma merge_configs_props:
  assumes "\<forall>cfg\<in>set cfgs. \<forall>c\<in>set (config_all cfg). \<not> isl (component_type c)"
  shows "\<exists>t'. merge_configs target cfgs = Inr t' \<and>
           pkg_id t' = pkg_id target \<and> pkg_name t' = pkg_name target \<and>
           version t' = version target \<and> dependencies t' = dependencies target \<and>
           package_artifacts t' =
             package_artifacts target + sum_list (map (\<lambda>cfg. mset (config_all cfg)) cfgs) \<and>
           (\<forall>x y. bucket_artifacts t' x y = bucket_artifacts target x y +
              sum_list (map (\<lambda>cfg. mset (config_all cfg))
                (filter (\<lambda>cfg. cfg_arch cfg = x \<and> cfg_build cfg = y) cfgs)))"
  using assms
proof (induction cfgs arbitrary: target)
  case Nil
  then show ?case by simp
next
  case (Cons cfg cfgs)
  obtain t1 i where g: "get_config target (cfg_arch cfg) (cfg_build cfg) = (t1, i)"
    by (cases "get_config target (cfg_arch cfg) (cfg_build cfg)")
  note gf = get_config_fields [OF g]
  have f: "find_config (configurations t1) (cfg_arch cfg) (cfg_build cfg) = Some i"
    using get_config_found [OF g] .
  note fi = find_config_Some [OF f]
  have typed: "\<forall>c\<in>set (config_all cfg). \<not> isl (component_type c)"
    using Cons.prems by simp
  obtain t2 where a: "add_all_at t1 i (config_all cfg) = Inr t2"
    "pkg_id t2 = pkg_id t1" "pkg_name t2 = pkg_name t1" "version t2 = version t1"
    "dependencies t2 = dependencies t1"
    "package_artifacts t2 = package_artifacts t1 + mset (config_all cfg)"
    "\<forall>x y. bucket_artifacts t2 x y = bucket_artifacts t1 x y +
        (if cfg_arch (configurations t1 ! i) = x \<and> cfg_build (configurations t1 ! i) = y
         then mset (config_all cfg) else {#})"
    using add_all_at_props [of i t1 "config_all cfg"] fi typed by blast
  obtain t' where r: "merge_configs t2 cfgs = Inr t'"
    "pkg_id t' = pkg_id t2" "pkg_name t' = pkg_name t2" "version t' = version t2"
    "dependencies t' = dependencies t2"
    "package_artifacts t' =
       package_artifacts t2 + sum_list (map (\<lambda>cfg. mset (config_all cfg)) cfgs)"
    "\<forall>x y. bucket_artifacts t' x y = bucket_artifacts t2 x y +
        sum_list (map (\<lambda>cfg. mset (config_all cfg))
          (filter (\<lambda>cfg. cfg_arch cfg = x \<and> cfg_build cfg = y) cfgs))"
    using Cons.IH [of t2] Cons.prems by auto
  have "merge_configs target (cfg # cfgs) = Inr t'" using g a(1) r(1) by simp
  moreover have "package_artifacts t' = package_artifacts target +
      sum_list (map (\<lambda>cfg. mset (config_all cfg)) (cfg # cfgs))"
    using r(6) a(6) gf(5) by simp
  moreover have "\<forall>x y. bucket_artifacts t' x y = bucket_artifacts target x y +
      sum_list (map (\<lambda>cfg. mset (config_all cfg))
        (filter (\<lambda>cfg. cfg_arch cfg = x \<and> cfg_build cfg = y) (cfg # cfgs)))"
    using r(7) a(7) gf(6) fi by simp
  ultimately show ?case
    using r(2-5) a(2-5) gf(1-4) by simp
qed

lemma typed_package_configs:
  "typed_package p \<Longrightarrow> \<forall>cfg\<in>set (configurations p). \<forall>c\<in>set (config_all cfg). \<not> isl (component_type c)"
  by (simp add: typed_package_def)

lemma bucket_artifacts_eq:
  "bucket_artifacts p x y =
     sum_list (map (\<lambda>cfg. mset (config_all cfg))
       (filter (\<lambda>cfg. cfg_arch cfg = x \<and> cfg_build cfg = y) (configurations p)))"
  by (simp add: bucket_artifacts_def)

lemma map_of_fold_delete:
  "map_of (fold AList.delete ms al) k = (if k \<in> set ms then None else map_of al k)"
proof (induction ms arbitrary: al)
  case Nil
  then show ?case by simp
next
  case (Cons m ms)
  then show ?case by (simp add: delete_conv')
qed

lemma keys_fold_delete: "fst ` set (fold AList.delete ms al) = fst ` set al - set ms"
proof -
  have "dom (map_of (fold AList.delete ms al)) = dom (map_of al) - set ms"
    by (auto simp: map_of_fold_delete dom_def)
  then show ?thesis by (simp add: dom_map_of_conv_image_fst)
qed

text \<open>
  The loop over the members, for members that are distinct, differ from the target, are in
  the registry and are typed: it succeeds, deletes exactly the members, and the target
  receives their artifacts.
\<close>

lemma merge_members_props:
  assumes "targetname \<notin> set members" and "distinct members"
    and "\<forall>m\<in>set members. \<exists>p. map_of packagelist m = Some p \<and> typed_package p"
  shows "\<exists>target'. merge_members packagelist targetname target members =
             Inr (fold AList.delete members packagelist, target') \<and>
           pkg_id target' = pkg_id target \<and> pkg_name target' = pkg_name target \<and>
           version target' = version target \<and> dependencies target' = dependencies target \<and>
           package_artifacts target' = package_artifacts target +
             sum_list (map (\<lambda>m. package_artifacts (the (map_of packagelist m))) members) \<and>
           (\<forall>x y. bucket_artifacts target' x y = bucket_artifacts target x y +
              sum_list (map (\<lambda>m. bucket_artifacts (the (map_of packagelist m)) x y) members))"
  using assms
proof (induction members arbitrary: packagelist target)
  case Nil
  then show ?case by simp
next
  case (Cons m ms)
  obtain p where p: "map_of packagelist m = Some p" and tp: "typed_package p"
    using Cons.prems(3) by auto
  have ne: "m \<noteq> targetname" using Cons.prems(1) by auto
  obtain t1 where t1: "merge_configs target (configurations p) = Inr t1"
    "pkg_id t1 = pkg_id target" "pkg_name t1 = pkg_name target"
    "version t1 = version target" "dependencies t1 = dependencies target"
    "package_artifacts t1 = package_artifacts target + package_artifacts p"
    "\<forall>x y. bucket_artifacts t1 x y = bucket_artifacts target x y + bucket_artifacts p x y"
    using merge_configs_props [OF typed_package_configs [OF tp], of target]
    unfolding bucket_artifacts_eq [of p] package_artifacts_def [of p] by blast
  let ?pl = "AList.delete m packagelist"
  have same: "\<forall>k\<in>set ms. map_of ?pl k = map_of packagelist k"
    using Cons.prems(2) by (auto simp: delete_conv')
  have pre: "\<forall>k\<in>set ms. \<exists>q. map_of ?pl k = Some q \<and> typed_package q"
    using same Cons.prems(3) by simp
  have "targetname \<notin> set ms" "distinct ms" using Cons.prems(1,2) by auto
  from Cons.IH [OF this pre, of t1]
  obtain t' where r: "merge_members ?pl targetname t1 ms = Inr (fold AList.delete ms ?pl, t')"
    "pkg_id t' = pkg_id t1" "pkg_name t' = pkg_name t1" "version t' = version t1"
    "dependencies t' = dependencies t1"
    "package_artifacts t' = package_artifacts t1 +
       sum_list (map (\<lambda>k. package_artifacts (the (map_of ?pl k))) ms)"
    "\<forall>x y. bucket_artifacts t' x y = bucket_artifacts t1 x y +
       sum_list (map (\<lambda>k. bucket_artifacts (the (map_of ?pl k)) x y) ms)"
    by blast
  have s1: "map (\<lambda>k. package_artifacts (the (map_of ?pl k))) ms =
            map (\<lambda>k. package_artifacts (the (map_of packagelist k))) ms"
    using same by simp
  have s2: "\<And>x y. map (\<lambda>k. bucket_artifacts (the (map_of ?pl k)) x y) ms =
            map (\<lambda>k. bucket_artifacts (the (map_of packagelist k)) x y) ms"
    using same by simp
  have "merge_members packagelist targetname target (m # ms) =
      Inr (fold AList.delete (m # ms) packagelist, t')"
    using p ne t1(1) r(1) by simp
  moreover have "package_artifacts t' = package_artifacts target +
      sum_list (map (\<lambda>k. package_artifacts (the (map_of packagelist k))) (m # ms))"
    using r(6) t1(6) p unfolding s1 by simp
  moreover have "\<forall>x y. bucket_artifacts t' x y = bucket_artifacts target x y +
      sum_list (map (\<lambda>k. bucket_artifacts (the (map_of packagelist k)) x y) (m # ms))"
    using r(7) t1(7) p unfolding s2 by simp
  ultimately show ?case
    using r(2-5) t1(2-5) by simp
qed

lemma merge_packages_props:
  assumes "map_of packagelist targetname = Some target"
    and "targetname \<notin> set members" and "distinct members"
    and "\<forall>m\<in>set members. \<exists>p. map_of packagelist m = Some p \<and> typed_package p"
  shows "\<exists>target'. merge_packages packagelist targetname members =
             Inr (AList.update targetname target' (fold AList.delete members packagelist)) \<and>
           pkg_id target' = pkg_id target \<and> pkg_name target' = pkg_name target \<and>
           version target' = version target \<and> dependencies target' = dependencies target \<and>
           package_artifacts target' = package_artifacts target +
             sum_list (map (\<lambda>m. package_artifacts (the (map_of packagelist m))) members) \<and>
           (\<forall>x y. bucket_artifacts target' x y = bucket_artifacts target x y +
              sum_list (map (\<lambda>m. bucket_artifacts (the (map_of packagelist m)) x y) members))"
proof -
  obtain t' where r: "merge_members packagelist targetname target members =
             Inr (fold AList.delete members packagelist, t')"
    and rest: "pkg_id t' = pkg_id target" "pkg_name t' = pkg_name target"
      "version t' = version target" "dependencies t' = dependencies target"
      "package_artifacts t' = package_artifacts target +
         sum_list (map (\<lambda>m. package_artifacts (the (map_of packagelist m))) members)"
      "\<forall>x y. bucket_artifacts t' x y = bucket_artifacts target x y +
         sum_list (map (\<lambda>m. bucket_artifacts (the (map_of packagelist m)) x y) members)"
    using merge_members_props [OF assms(2,3,4), of target] by blast
  have "map_of (fold AList.delete members packagelist) targetname = Some target"
    using assms(1,2) by (simp add: map_of_fold_delete)
  then have "merge_packages packagelist targetname members =
      Inr (AList.update targetname t' (fold AList.delete members packagelist))"
    using assms(1) r by (simp add: merge_packages_def)
  then show ?thesis using rest by blast
qed

text \<open>
  Claim C2. In a registry that holds \<open>qt5core\<close>, \<open>qtmain\<close>, \<open>qt5bootstrap\<close> and
  \<open>qt5platformsupport\<close>, the three members being typed, the merge succeeds. Afterwards none
  of the three member names is a key, and for every architecture and build the artifacts
  of \<open>qt5core\<close> for that pair are those the four packages held for it before.
\<close>

theorem merge_qt5core:
  assumes "map_of packages ''qt5core'' = Some core"
    and "map_of packages ''qtmain'' = Some m1" and "typed_package m1"
    and "map_of packages ''qt5bootstrap'' = Some m2" and "typed_package m2"
    and "map_of packages ''qt5platformsupport'' = Some m3" and "typed_package m3"
  shows "\<exists>packages' core'.
           merge_packages packages ''qt5core'' [''qtmain'', ''qt5bootstrap'', ''qt5platformsupport'']
             = Inr packages' \<and>
           ''qtmain'' \<notin> fst ` set packages' \<and> ''qt5bootstrap'' \<notin> fst ` set packages' \<and>
           ''qt5platformsupport'' \<notin> fst ` set packages' \<and>
           map_of packages' ''qt5core'' = Some core' \<and>
           (\<forall>a b. bucket_artifacts core' a b =
              bucket_artifacts core a b + bucket_artifacts m1 a b + bucket_artifacts m2 a b +
              bucket_artifacts m3 a b)"
proof -
  let ?ms = "[''qtmain'', ''qt5bootstrap'', ''qt5platformsupport'']"
  have 1: "''qt5core'' \<notin> set ?ms" by simp
  have 2: "distinct ?ms" by simp
  have 3: "\<forall>m\<in>set ?ms. \<exists>p. map_of packages m = Some p \<and> typed_package p"
    using assms by simp
  obtain core' where r: "merge_packages packages ''qt5core'' ?ms =
        Inr (AList.update ''qt5core'' core' (fold AList.delete ?ms packages))"
    and b: "\<forall>x y. bucket_artifacts core' x y = bucket_artifacts core x y +
         sum_list (map (\<lambda>m. bucket_artifacts (the (map_of packages m)) x y) ?ms)"
    using merge_packages_props [OF assms(1) 1 2 3] by blast
  let ?packages' = "AList.update ''qt5core'' core' (fold AList.delete ?ms packages)"
  have keys: "fst ` set ?packages' = {''qt5core''} \<union> (fst ` set packages - set ?ms)"
    by (simp only: dom_update keys_fold_delete)
  have k1: "''qtmain'' \<notin> fst ` set ?packages'" unfolding keys by simp
  have k2: "''qt5bootstrap'' \<notin> fst ` set ?packages'" unfolding keys by simp
  have k3: "''qt5platformsupport'' \<notin> fst ` set ?packages'" unfolding keys by simp
  have c: "map_of ?packages' ''qt5core'' = Some core'"
    by (simp only: update_conv' fun_upd_same)
  have u: "\<forall>a b. bucket_artifacts core' a b =
      bucket_artifacts core a b + bucket_artifacts m1 a b + bucket_artifacts m2 a b +
      bucket_artifacts m3 a b"
    using b assms(2,4,6) by (simp add: ac_simps)
  show ?thesis
    by (rule exI [of _ ?packages'], rule exI [of _ core']) (intro conjI r k1 k2 k3 c u)
qed

section \<open>The artifacts of a registry\<close>

lemma registry_artifacts_delete:
  "distinct (map fst al) \<Longrightarrow> map_of al m = Some p \<Longrightarrow>
     registry_artifacts al = package_artifacts p + registry_artifacts (AList.delete m al)"
proof (induction al)
  case Nil
  then show ?case by simp
next
  case (Cons a al)
  obtain k q where a: "a = (k, q)" by (cases a)
  show ?case
  proof (cases "k = m")
    case True
    then have "m \<notin> fst ` set al" using Cons.prems(1) a by auto
    then have "AList.delete m al = al" by simp
    then show ?thesis using True Cons.prems(2) a by (simp add: registry_artifacts_def)
  next
    case False
    then have "registry_artifacts al = package_artifacts p + registry_artifacts (AList.delete m al)"
      using Cons a by simp
    then show ?thesis using False a by (simp add: registry_artifacts_def)
  qed
qed

lemma distinct_fold_delete:
  "distinct (map fst al) \<Longrightarrow> distinct (map fst (fold AList.delete ms al))"
  by (induction ms arbitrary: al) (simp_all add: distinct_delete)

lemma registry_artifacts_fold_delete:
  "distinct (map fst al) \<Longrightarrow> distinct ms \<Longrightarrow> \<forall>m\<in>set ms. \<exists>p. map_of al m = Some p \<Longrightarrow>
     registry_artifacts al =
       sum_list (map (\<lambda>m. package_artifacts (the (map_of al m))) ms) +
       registry_artifacts (fold AList.delete ms al)"
proof (induction ms arbitrary: al)
  case Nil
  then show ?case by simp
next
  case (Cons m ms)
  obtain p where p: "map_of al m = Some p" using Cons.prems(3) by auto
  let ?al = "AList.delete m al"
  have same: "\<forall>k\<in>set ms. map_of ?al k = map_of al k"
    using Cons.prems(2) by (auto simp: delete_conv')
  then have pre: "\<forall>k\<in>set ms. \<exists>q. map_of ?al k = Some q" using Cons.prems(3) by simp
  have s: "map (\<lambda>k. package_artifacts (the (map_of ?al k))) ms =
           map (\<lambda>k. package_artifacts (the (map_of al k))) ms"
    using same by simp
  have "registry_artifacts ?al =
      sum_list (map (\<lambda>k. package_artifacts (the (map_of ?al k))) ms) +
      registry_artifacts (fold AList.delete ms ?al)"
    using Cons.IH [OF distinct_delete [OF Cons.prems(1)] _ pre] Cons.prems(2) by simp
  then show ?case
    using registry_artifacts_delete [OF Cons.prems(1) p] p unfolding s by simp
qed

lemma registry_artifacts_update:
  "distinct (map fst al) \<Longrightarrow> map_of al k = Some old \<Longrightarrow>
     registry_artifacts (AList.update k new al) + package_artifacts old =
       registry_artifacts al + package_artifacts new"
proof (induction al)
  case Nil
  then show ?case by simp
next
  case (Cons a al)
  obtain j q where a: "a = (j, q)" by (cases a)
  show ?case
  proof (cases "j = k")
    case True
    then show ?thesis using Cons.prems(2) a by (simp add: registry_artifacts_def)
  next
    case False
    then have "registry_artifacts (AList.update k new al) + package_artifacts old =
        registry_artifacts al + package_artifacts new"
      using Cons a by simp
    then show ?thesis using False a by (simp add: registry_artifacts_def ac_simps)
  qed
qed

lemma merge_table_entries:
  "(targetname, members) \<in> set MERGE_PACKAGES \<Longrightarrow> targetname \<notin> set members \<and> distinct members"
  by (auto simp: MERGE_PACKAGES_def)

lemma typed_registry_lookup:
  "typed_registry packages \<Longrightarrow> map_of packages n = Some p \<Longrightarrow> typed_package p"
  by (auto simp: typed_registry_def dest: map_of_SomeD)

text \<open>
  Claim C9. For an entry of the merge table whose target and members are all in the
  registry (the registry having each name once and typed packages), the merge succeeds and
  the artifacts of the whole registry are the same multiset before and after: the target
  holds what it held plus what each member held, the members are gone, and the other
  packages are untouched.
\<close>

theorem merge_preserves_artifacts:
  assumes "(targetname, members) \<in> set MERGE_PACKAGES"
    and "distinct (map fst packages)" and "typed_registry packages"
    and "\<forall>n\<in>set (targetname # members). n \<in> fst ` set packages"
  shows "\<exists>packages' target target'.
           merge_packages packages targetname members = Inr packages' \<and>
           registry_artifacts packages' = registry_artifacts packages \<and>
           map_of packages targetname = Some target \<and>
           map_of packages' targetname = Some target' \<and>
           package_artifacts target' = package_artifacts target +
             sum_list (map (\<lambda>m. package_artifacts (the (map_of packages m))) members) \<and>
           fst ` set packages' = fst ` set packages - set members \<and>
           (\<forall>n. n \<noteq> targetname \<and> n \<notin> set members \<longrightarrow> map_of packages' n = map_of packages n)"
proof -
  have tm: "targetname \<notin> set members" and dm: "distinct members"
    using merge_table_entries [OF assms(1)] by auto
  have present: "\<forall>n\<in>set (targetname # members). \<exists>p. map_of packages n = Some p"
    using assms(4) by (metis domD dom_map_of_conv_image_fst)
  then obtain target where target: "map_of packages targetname = Some target" by auto
  have members: "\<forall>m\<in>set members. \<exists>p. map_of packages m = Some p \<and> typed_package p"
    using present typed_registry_lookup [OF assms(3)] by auto
  let ?S = "sum_list (map (\<lambda>m. package_artifacts (the (map_of packages m))) members)"
  let ?pl = "fold AList.delete members packages"
  obtain target' where r: "merge_packages packages targetname members =
        Inr (AList.update targetname target' ?pl)"
    and pa: "package_artifacts target' = package_artifacts target + ?S"
    using merge_packages_props [OF target tm dm members] by blast
  let ?packages' = "AList.update targetname target' ?pl"
  have d: "distinct (map fst ?pl)" using distinct_fold_delete [OF assms(2)] .
  have t: "map_of ?pl targetname = Some target"
    using target tm by (simp add: map_of_fold_delete)
  have "registry_artifacts ?packages' + package_artifacts target =
      registry_artifacts ?pl + package_artifacts target'"
    using registry_artifacts_update [OF d t] .
  also have "\<dots> = (?S + registry_artifacts ?pl) + package_artifacts target"
    using pa by (simp add: ac_simps)
  also have "\<dots> = registry_artifacts packages + package_artifacts target"
  proof -
    have "\<forall>m\<in>set members. \<exists>p. map_of packages m = Some p" using members by blast
    then show ?thesis using registry_artifacts_fold_delete [OF assms(2) dm] by simp
  qed
  finally have ra: "registry_artifacts ?packages' = registry_artifacts packages"
    by simp
  have t': "map_of ?packages' targetname = Some target'"
    by (simp only: update_conv' fun_upd_same)
  have "targetname \<in> fst ` set packages" using assms(4) by simp
  then have keys: "fst ` set ?packages' = fst ` set packages - set members"
    using tm by (auto simp only: dom_update keys_fold_delete)
  have others: "\<forall>n. n \<noteq> targetname \<and> n \<notin> set members \<longrightarrow>
      map_of ?packages' n = map_of packages n"
    by (simp add: update_conv' map_of_fold_delete)
  show ?thesis
    by (rule exI [of _ ?packages'], rule exI [of _ target], rule exI [of _ target'])
      (intro conjI r ra target t' pa keys others)
qed

end
